theory Spec2Isabelle
  imports Main "HOL-Library.Word"
begin

unbundle bit_operations_syntax

section \<open>The spk tool of Sandstorm: data model and operations\<close>

text \<open>
  This theory embeds \<^verbatim>\<open>src/sandstorm/spk.c++\<close>: the base32 codec that prints
  application identifiers, the archiver that turns a directory tree into an archive, the
  unpacker that materialises an archive, and the verification steps of \<^verbatim>\<open>doUnpack\<close>.

  Conventions. A \<^verbatim>\<open>byte\<close> is an 8-bit word and a \<^verbatim>\<open>uint\<close> a 32-bit word, so
  that \<open>+\<close>, \<open>-\<close> and shifts wrap as they do in C++. Sizes of arrays and strings
  (\<^verbatim>\<open>size_t\<close>, 64 bits on the platforms Sandstorm runs on) are natural numbers: an
  array that fits into memory has fewer than \<open>2 ^ 61\<close> elements, so no computation on
  sizes in this file overflows \<^verbatim>\<open>size_t\<close>. A \<^verbatim>\<open>KJ_ASSERT\<close> or
  \<^verbatim>\<open>KJ_REQUIRE\<close> that fails, a failing system call and a validation error are values
  of type \<open>error\<close>; a computation that may loop forever returns an \<open>option\<close>, where
  \<open>None\<close> stands for not returning.
\<close>

type_synonym byte = "8 word"
type_synonym uint = "32 word"
type_synonym mode_t = "32 word"

subsection \<open>Errors\<close>

text \<open>
  One constructor for each way an operation of the tool gives up. The comments give the
  message or the check of the source.
\<close>

datatype error =
    AssertionFailed string     \<comment> \<open>a \<^verbatim>\<open>KJ_ASSERT\<close> without a message, with its condition\<close>
  | OutOfBounds                \<comment> \<open>a write past the end of an array (undefined in C++)\<close>
  | InvalidEncoding            \<comment> \<open>\<^verbatim>\<open>"Invalid base32."\<close>\<close>
  | TrailingBits               \<comment> \<open>\<^verbatim>\<open>"Base32 decode failed: extra bits at end."\<close>\<close>
  | OutputExists               \<comment> \<open>\<^verbatim>\<open>"Output directory already exists."\<close>\<close>
  | PrematureEOF               \<comment> \<open>a read of a fixed number of bytes hits the end of the input\<close>
  | BadMagic                   \<comment> \<open>\<^verbatim>\<open>"Does not appear to be an .spk (bad magic number)."\<close>\<close>
  | MalformedSignature string  \<comment> \<open>\<^verbatim>\<open>"Invalid public key."\<close>, \<^verbatim>\<open>"Invalid signature format."\<close>,
                                   \<^verbatim>\<open>"Wrong signature size."\<close>\<close>
  | InvalidSignature           \<comment> \<open>\<^verbatim>\<open>"Invalid signature."\<close>\<close>
  | ContentMismatch            \<comment> \<open>\<^verbatim>\<open>"Signature didn't match package contents."\<close>\<close>
  | ChildFailed nat            \<comment> \<open>\<^verbatim>\<open>"child process failed"\<close>, with the wait status\<close>
  | ParseFailed                \<comment> \<open>the serialization library rejects a message\<close>
  | InvalidName string         \<comment> \<open>\<^verbatim>\<open>"Archive contained invalid file name."\<close>\<close>
  | DuplicateName string       \<comment> \<open>\<^verbatim>\<open>"Archive contained duplicate file name."\<close>\<close>
  | AlreadyExists string       \<comment> \<open>\<^verbatim>\<open>"Unpacked file already exists."\<close>\<close>
  | UnknownFileType            \<comment> \<open>\<^verbatim>\<open>"Unknown file type in archive."\<close>\<close>
  | SyscallFailed string       \<comment> \<open>\<^verbatim>\<open>KJ_SYSCALL\<close> on a call that returns an error\<close>
  | NoReturn                   \<comment> \<open>a called function does not return\<close>

subsection \<open>The base32 codec\<close>

definition BASE32_ENCODE_TABLE :: string where
  "BASE32_ENCODE_TABLE = ''0123456789acdefghjkmnpqrstuvwxyz''"

text \<open>
  The loop of \<^verbatim>\<open>base32Encode\<close>. The locals \<^verbatim>\<open>buffer\<close>, \<^verbatim>\<open>next\<close> (here
  \<open>nxt\<close>), \<^verbatim>\<open>bitsLeft\<close> and \<^verbatim>\<open>count\<close> are \<^verbatim>\<open>uint\<close>;
  \<^verbatim>\<open>next < data.size()\<close> compares a \<^verbatim>\<open>uint\<close> with a \<^verbatim>\<open>size_t\<close>. Nothing in the
  loop bounds the number of its passes, so it is a partial function; it returns the final
  \<^verbatim>\<open>count\<close> together with the string. The write \<^verbatim>\<open>result[count++]\<close> stands behind
  \<^verbatim>\<open>KJ_ASSERT(count < result.size())\<close>, so it is in bounds whenever it happens.
\<close>

partial_function (option) encode_loop ::
  "byte list \<Rightarrow> uint \<Rightarrow> uint \<Rightarrow> uint \<Rightarrow> uint \<Rightarrow> string \<Rightarrow> (error + uint \<times> string) option" where
  "encode_loop data buffer nxt bitsLeft count result =
     (if 0 < bitsLeft \<or> unat nxt < length data then
        (let (buffer, nxt, bitsLeft) =
               (if bitsLeft < 5 then
                  (if unat nxt < length data
                   then (push_bit 8 buffer OR (ucast (data ! unat nxt) AND 0xFF), nxt + 1, bitsLeft + 8)
                   else (let pad = 5 - bitsLeft in (push_bit (unat pad) buffer, nxt, bitsLeft + pad)))
                else (buffer, nxt, bitsLeft));
             index = 0x1F AND drop_bit (unat (bitsLeft - 5)) buffer;
             bitsLeft = bitsLeft - 5
         in if unat count < length result
            then encode_loop data buffer nxt bitsLeft (count + 1)
                   (result[unat count := BASE32_ENCODE_TABLE ! unat index])
            else Some (Inl (AssertionFailed ''count < result.size()'')))
      else Some (Inr (count, result)))"

declare encode_loop.simps [code]

text \<open>
  \<^verbatim>\<open>base32Encode\<close> allocates \<^verbatim>\<open>(data.size() * 8 + 4) / 5\<close> characters and runs the
  loop when the input is not empty. \<open>base32Encode_run\<close> also returns the final value of
  \<^verbatim>\<open>count\<close>, which goes up by one with every character written; \<open>base32Encode\<close>
  is the function as its callers see it. The fresh string is taken to hold NUL characters
  (and the fresh array of \<^verbatim>\<open>decode\<close> zeros) where nothing has been written yet.
\<close>

definition base32Encode_run :: "byte list \<Rightarrow> (error + uint \<times> string) option" where
  "base32Encode_run data =
     (let result = replicate ((length data * 8 + 4) div 5) (CHR 0x00) in
      if 0 < length data then encode_loop data (ucast (data ! 0)) 1 8 0 result
      else Some (Inr (0, result)))"

definition base32Encode :: "byte list \<Rightarrow> (error + string) option" where
  "base32Encode data =
     (case base32Encode_run data of
        None \<Rightarrow> None
      | Some (Inl e) \<Rightarrow> Some (Inl e)
      | Some (Inr (count, result)) \<Rightarrow> Some (Inr result))"

text \<open>
  The constructor of \<^verbatim>\<open>Base32Decoder\<close> fills a table of 256 bytes: 255 everywhere, then
  the index of every character of the alphabet, also under its upper-case letter, then the
  four letters that are read as digits.
\<close>

definition decodeTable :: "byte list" where
  "decodeTable =
     (let t0 = replicate 256 (255 :: byte);
          t1 = fold (\<lambda>i t.
                  let c = (of_char (BASE32_ENCODE_TABLE ! i) :: nat);
                      t' = t[c := of_nat i]
                  in if of_char CHR ''a'' \<le> c \<and> c \<le> of_char CHR ''z''
                     then t'[c - of_char CHR ''a'' + of_char CHR ''A'' := of_nat i]
                     else t')
                [0..<32] t0
      in t1[of_char CHR ''O'' := 0, of_char CHR ''o'' := 0,
            of_char CHR ''I'' := 1, of_char CHR ''i'' := 1,
            of_char CHR ''L'' := 1, of_char CHR ''l'' := 1,
            of_char CHR ''B'' := 8, of_char CHR ''b'' := 8])"

text \<open>
  The loop of \<^verbatim>\<open>Base32Decoder::decode\<close> over the characters of \<^verbatim>\<open>encoded\<close>;
  \<open>esize\<close> is \<^verbatim>\<open>encoded.size()\<close>. The write \<^verbatim>\<open>result[count++]\<close> is checked here
  against the length of \<^verbatim>\<open>result\<close>, which the source does not do.
\<close>

fun decode_loop ::
  "nat \<Rightarrow> string \<Rightarrow> uint \<Rightarrow> uint \<Rightarrow> uint \<Rightarrow> byte list \<Rightarrow> error + uint \<times> uint \<times> uint \<times> byte list" where
  "decode_loop esize [] buffer bitsLeft count result = Inr (buffer, bitsLeft, count, result)"
| "decode_loop esize (c # cs) buffer bitsLeft count result =
     (let decoded = decodeTable ! of_char c in
      if \<not> decoded \<le> 32 then Inl InvalidEncoding
      else
        let buffer = push_bit 5 buffer OR ucast decoded;
            bitsLeft = bitsLeft + 5
        in if 8 \<le> bitsLeft then
             if \<not> unat count < esize then Inl (AssertionFailed ''count < encoded.size()'')
             else
               let bitsLeft = bitsLeft - 8 in
               if unat count < length result
               then decode_loop esize cs buffer bitsLeft (count + 1)
                      (result[unat count := ucast (drop_bit (unat bitsLeft) buffer)])
               else Inl OutOfBounds
           else decode_loop esize cs buffer bitsLeft count result)"

definition decode_run :: "string \<Rightarrow> error + uint \<times> byte list" where
  "decode_run encoded =
     (let result = replicate (length encoded * 5 div 8) (0 :: byte) in
      case decode_loop (length encoded) encoded 0 0 0 result of
        Inl e \<Rightarrow> Inl e
      | Inr (buffer, bitsLeft, count, result) \<Rightarrow>
          let buffer = buffer AND (push_bit (unat bitsLeft) 1 - 1) in
          if buffer = 0 then Inr (count, result) else Inl TrailingBits)"

definition decode :: "string \<Rightarrow> error + byte list" where
  "decode encoded =
     (case decode_run encoded of Inl e \<Rightarrow> Inl e | Inr (count, result) \<Rightarrow> Inr result)"

text \<open>The check \<^verbatim>\<open>decoded <= 32\<close> of the loop, as a predicate on the character.\<close>

definition valid_char :: "char \<Rightarrow> bool" where
  "valid_char c \<longleftrightarrow> decodeTable ! of_char c \<le> 32"

subsection \<open>The codec as the specification describes it\<close>

text \<open>
  The specification describes the encoding on the stream of bits of the input, most
  significant bit first: the stream is cut into groups of five bits, the last group is
  filled up with zeros, and each group selects a character of the alphabet. The
  definitions below follow these words; they are compared with the loops above.
\<close>

definition lowbits :: "nat \<Rightarrow> 'a::len word \<Rightarrow> bool list" where
  "lowbits k w = rev (map (bit w) [0..<k])"

definition value_of_bits :: "bool list \<Rightarrow> nat" where
  "value_of_bits bs = horner_sum of_bool 2 (rev bs)"

definition stream :: "byte list \<Rightarrow> bool list" where
  "stream data = concat (map (lowbits 8) data)"

function groups5 :: "bool list \<Rightarrow> bool list list" where
  "groups5 bs = (if bs = [] then [] else take 5 (bs @ replicate 4 False) # groups5 (drop 5 bs))"
  by pat_completeness auto
termination
  by (relation "measure length") auto

declare groups5.simps [simp del]

definition enc_char :: "bool list \<Rightarrow> char" where
  "enc_char g = BASE32_ENCODE_TABLE ! value_of_bits g"

definition spec_encode :: "byte list \<Rightarrow> string" where
  "spec_encode data = map enc_char (groups5 (stream data))"

text \<open>
  For decoding, every character stands for the five low bits of its table entry, and the
  decoded bytes are the whole groups of eight bits of that stream.
\<close>

definition sym_bits :: "char \<Rightarrow> bool list" where
  "sym_bits c = lowbits 5 (decodeTable ! of_char c)"

definition char_stream :: "string \<Rightarrow> bool list" where
  "char_stream cs = concat (map sym_bits cs)"

subsection \<open>Archives\<close>

text \<open>
  An archive is a list of files; a file has a name and one member of a union. The reader of
  the union (\<^verbatim>\<open>file.which()\<close>) can also meet a member this version of the schema does
  not know, which is \<open>Unknown\<close>.
\<close>

datatype variant =
    Regular "byte list"
  | Executable "byte list"
  | Symlink string
  | Directory "(string \<times> variant) list"
  | Unknown

type_synonym archive_file = "string \<times> variant"

subsection \<open>Directory trees on disk\<close>

text \<open>
  What the tool sees of a directory: its entries in the order \<^verbatim>\<open>readdir\<close> returns them,
  each with the node \<^verbatim>\<open>lstat\<close> finds under that name. A regular file has its
  permission bits and its contents, a symbolic link its target, a directory its own
  entries; \<open>Irregular\<close> is any other kind of file (device, socket, fifo).

  A directory is passed to the operations below as a value. A path
  \<^verbatim>\<open>kj::str(dirname, '/', name)\<close> whose \<^verbatim>\<open>name\<close> has no \<open>/\<close> denotes the entry
  \<^verbatim>\<open>name\<close> of the directory at \<^verbatim>\<open>dirname\<close>, so a system call on such a path is a
  function of that directory and of the name. A new entry is added at the end.

  A system call fails here only for the state of the directory it works on: a name that
  exists already, or one that does not exist. Failures that come from the rest of the
  environment (a full disk, missing permissions) are left out: the process is taken to be
  allowed what it asks for. The umask is part of the model because the modes of the files
  it creates are.
\<close>

datatype inode =
    RegularFile mode_t "byte list"
  | SymbolicLink string
  | DirectoryNode mode_t "(string \<times> inode) list"
  | Irregular

type_synonym directory = "(string \<times> inode) list"

text \<open>Permission bits are written in octal in the source: \<open>octal [7, 7, 7]\<close> is \<^verbatim>\<open>0777\<close>.\<close>

definition octal :: "nat list \<Rightarrow> mode_t" where
  "octal ds = of_nat (foldl (\<lambda>a d. 8 * a + d) 0 ds)"


text \<open>\<^verbatim>\<open>cStr()\<close> hands a string to a system call, which reads it up to the first NUL.\<close>

definition cStr :: "string \<Rightarrow> string" where
  "cStr s = takeWhile (\<lambda>c. c \<noteq> CHR 0x00) s"

datatype open_flag = O_RDONLY | O_WRONLY | O_CREAT | O_EXCL | O_TRUNC

text \<open>
  \<^verbatim>\<open>access(path, F_OK)\<close> asks whether the path names a file. No link is followed here:
  a name that has an entry exists. (For an entry that is a link to nothing \<^verbatim>\<open>access\<close>
  fails, and the call that would create the file fails in its place, with
  \<^verbatim>\<open>EEXIST\<close>.)
\<close>

definition sys_access :: "directory \<Rightarrow> string \<Rightarrow> bool" where
  "sys_access dir name \<longleftrightarrow> map_of dir name \<noteq> None"

definition put :: "directory \<Rightarrow> string \<Rightarrow> inode \<Rightarrow> directory" where
  "put dir name node = map (\<lambda>(n, x). if n = name then (n, node) else (n, x)) dir"

text \<open>
  \<^verbatim>\<open>raiiOpen\<close> is \<^verbatim>\<open>open(2)\<close> under \<^verbatim>\<open>KJ_SYSCALL\<close>. A file that is created
  gets the requested mode without the bits of the process umask.
\<close>

definition raiiOpen :: "mode_t \<Rightarrow> directory \<Rightarrow> string \<Rightarrow> open_flag list \<Rightarrow> mode_t \<Rightarrow> error + directory" where
  "raiiOpen umask dir name flags mode =
     (case map_of dir name of
        None \<Rightarrow>
          if O_CREAT \<in> set flags
          then Inr (dir @ [(name, RegularFile (mode AND NOT umask) [])])
          else Inl (SyscallFailed ''open: ENOENT'')
      | Some node \<Rightarrow>
          if O_CREAT \<in> set flags \<and> O_EXCL \<in> set flags then Inl (SyscallFailed ''open: EEXIST'')
          else (case node of
                  RegularFile m content \<Rightarrow>
                    Inr (if O_TRUNC \<in> set flags then put dir name (RegularFile m []) else dir)
                | _ \<Rightarrow> Inl (SyscallFailed ''open'')))"

definition sys_write :: "directory \<Rightarrow> string \<Rightarrow> byte list \<Rightarrow> directory" where
  "sys_write dir name bytes =
     (case map_of dir name of
        Some (RegularFile m content) \<Rightarrow> put dir name (RegularFile m (content @ bytes))
      | _ \<Rightarrow> dir)"

definition sys_symlink :: "directory \<Rightarrow> string \<Rightarrow> string \<Rightarrow> error + directory" where
  "sys_symlink dir target name =
     (if sys_access dir name then Inl (SyscallFailed ''symlink: EEXIST'')
      else Inr (dir @ [(name, SymbolicLink target)]))"

definition sys_mkdir :: "mode_t \<Rightarrow> directory \<Rightarrow> string \<Rightarrow> mode_t \<Rightarrow> error + directory" where
  "sys_mkdir umask dir name mode =
     (if sys_access dir name then Inl (SyscallFailed ''mkdir: EEXIST'')
      else Inr (dir @ [(name, DirectoryNode (mode AND NOT umask) [])]))"

text \<open>Reading and replacing the entries of the subdirectory \<open>name\<close>.\<close>

definition entries_of :: "directory \<Rightarrow> string \<Rightarrow> directory" where
  "entries_of dir name = (case map_of dir name of Some (DirectoryNode m es) \<Rightarrow> es | _ \<Rightarrow> [])"

definition set_entries :: "directory \<Rightarrow> string \<Rightarrow> directory \<Rightarrow> directory" where
  "set_entries dir name es =
     (case map_of dir name of Some (DirectoryNode m old) \<Rightarrow> put dir name (DirectoryNode m es) | _ \<Rightarrow> dir)"

subsection \<open>Packing a directory\<close>


subsection \<open>Unpacking an archive\<close>

text \<open>The first \<^verbatim>\<open>KJ_REQUIRE\<close> of \<^verbatim>\<open>unpackDir\<close>.\<close>

definition valid_name :: "string \<Rightarrow> bool" where
  "valid_name name \<longleftrightarrow>
     length name \<noteq> 0 \<and> name \<noteq> ''.'' \<and> name \<noteq> ''..'' \<and>
     CHR ''/'' \<notin> set name \<and> CHR 0x00 \<notin> set name"

text \<open>
  The loop of \<^verbatim>\<open>unpackDir\<close> over the files of one level, with the set \<^verbatim>\<open>seen\<close> and
  the directory at \<^verbatim>\<open>dirname\<close>. It returns the error that stopped it, if any, and the
  directory as it is then: what was written before a failure stays.
\<close>

fun unpackDir_loop ::
  "mode_t \<Rightarrow> archive_file list \<Rightarrow> string \<Rightarrow> string set \<Rightarrow> directory \<Rightarrow> error option \<times> directory" where
  "unpackDir_loop umask [] dirname seen dir = (None, dir)"
| "unpackDir_loop umask ((name, which) # files) dirname seen dir =
     (if \<not> valid_name name then (Some (InvalidName name), dir)
      else if name \<in> seen then (Some (DuplicateName name), dir)
      else
        let path = dirname @ ''/'' @ name in
        if sys_access dir name then (Some (AlreadyExists path), dir)
        else
          (case which of
             Regular bytes \<Rightarrow>
               (case raiiOpen umask dir name [O_WRONLY, O_CREAT, O_EXCL] (octal [6, 6, 6]) of
                  Inl e \<Rightarrow> (Some e, dir)
                | Inr dir' \<Rightarrow>
                    unpackDir_loop umask files dirname (insert name seen) (sys_write dir' name bytes))
           | Executable bytes \<Rightarrow>
               (case raiiOpen umask dir name [O_WRONLY, O_CREAT, O_EXCL] (octal [7, 7, 7]) of
                  Inl e \<Rightarrow> (Some e, dir)
                | Inr dir' \<Rightarrow>
                    unpackDir_loop umask files dirname (insert name seen) (sys_write dir' name bytes))
           | Symlink target \<Rightarrow>
               (case sys_symlink dir (cStr target) name of
                  Inl e \<Rightarrow> (Some e, dir)
                | Inr dir' \<Rightarrow> unpackDir_loop umask files dirname (insert name seen) dir')
           | Directory sub \<Rightarrow>
               (case sys_mkdir umask dir name (octal [7, 7, 7]) of
                  Inl e \<Rightarrow> (Some e, dir)
                | Inr dir' \<Rightarrow>
                    (case unpackDir_loop umask sub path {} (entries_of dir' name) of
                       (Some e, d) \<Rightarrow> (Some e, set_entries dir' name d)
                     | (None, d) \<Rightarrow>
                         unpackDir_loop umask files dirname (insert name seen) (set_entries dir' name d)))
           | Unknown \<Rightarrow> (Some UnknownFileType, dir)))"

definition unpackDir :: "mode_t \<Rightarrow> archive_file list \<Rightarrow> string \<Rightarrow> directory \<Rightarrow> error option \<times> directory" where
  "unpackDir umask files dirname dir = unpackDir_loop umask files dirname {} dir"

subsection \<open>Printing the application identifier\<close>

text \<open>
  \<^verbatim>\<open>printAppId\<close> requires a key of \<^verbatim>\<open>crypto_sign_PUBLICKEYBYTES\<close> bytes, which a
  \<^verbatim>\<open>static_assert\<close> fixes to 32, and writes the encoded key to the standard output;
  its value here is the line it writes.
\<close>

definition printAppId :: "bool \<Rightarrow> byte list \<Rightarrow> string \<Rightarrow> error + string" where
  "printAppId onlyPrintId publicKey filename =
     (if length publicKey \<noteq> 32
      then Inl (AssertionFailed ''publicKey.size() == crypto_sign_PUBLICKEYBYTES'')
      else case base32Encode publicKey of
             None \<Rightarrow> Inl NoReturn
           | Some (Inl e) \<Rightarrow> Inl e
           | Some (Inr appId) \<Rightarrow>
               Inr (if onlyPrintId then appId @ [CHR 0x0A]
                    else appId @ '' '' @ filename @ [CHR 0x0A]))"

subsection \<open>Verifying and unpacking a package\<close>

text \<open>
  \<^verbatim>\<open>doUnpack\<close> uses a constant of the schema, two libraries and a program that are
  not part of the sources. They are parameters of the model:
  \<^item> \<open>MAGIC_NUMBER\<close>, the constant \<^verbatim>\<open>spk::MAGIC_NUMBER\<close> of \<^verbatim>\<open>package.capnp\<close>;
  \<^item> \<open>crypto_hash_BYTES\<close>, \<open>crypto_sign_BYTES\<close>, \<open>crypto_hash\<close> and
    \<open>crypto_sign_open\<close> of libsodium; \<open>crypto_sign_open sig pk\<close> is the message the
    signature opens to, or \<open>None\<close> when the call returns non-zero;
  \<^item> \<open>xz_decompress\<close>, the run of \<^verbatim>\<open>xz -dc\<close> on the rest of the file: the bytes it
    writes to the pipe and its wait status;
  \<^item> \<open>readSignature\<close>, the Cap'n Proto reader of the first message of the stream, which
    gives the public key and the signature of the \<^verbatim>\<open>spk::Signature\<close> and leaves the
    rest of the stream, and \<open>readArchive\<close>, the reader of the archive.
\<close>

record externals =
  MAGIC_NUMBER :: "byte list"
  crypto_hash_BYTES :: nat
  crypto_sign_BYTES :: nat
  crypto_hash :: "byte list \<Rightarrow> byte list"
  crypto_sign_open :: "byte list \<Rightarrow> byte list \<Rightarrow> byte list option"
  xz_decompress :: "byte list \<Rightarrow> byte list \<times> nat"
  readSignature :: "byte list \<Rightarrow> ((byte list \<times> byte list) \<times> byte list) option"
  readArchive :: "byte list \<Rightarrow> archive_file list option"

text \<open>
  The state the operation works on: the files it can name (the package file and the output
  directory are entries of \<open>namespace\<close>), the umask of the process, and the child
  processes it has started, each with its command and its flag.
\<close>

record world =
  namespace :: directory
  process_umask :: mode_t
  children :: "(string \<times> string) list"

text \<open>
  \<^verbatim>\<open>doUnpack\<close>. The temporary file is created and unlinked at once, so it leaves no
  entry. \<^verbatim>\<open>read\<close> of the magic number asks for exactly as many bytes as the constant
  has and fails on a shorter file. The child process is started by the constructor of
  \<^verbatim>\<open>ChildProcess\<close>; its destructor runs when the block that reads the stream is left
  without a validation error, and fails on a wait status other than 0. A validation error
  ends the process where it is found.
\<close>

definition doUnpack ::
  "externals \<Rightarrow> bool \<Rightarrow> string \<Rightarrow> string \<Rightarrow> world \<Rightarrow> (error + string) \<times> world" where
  "doUnpack ext onlyPrintId spkfile dirname w =
     (if sys_access (namespace w) dirname then (Inl OutputExists, w)
      else
        case map_of (namespace w) spkfile of
          None \<Rightarrow> (Inl (SyscallFailed ''open: ENOENT''), w)
        | Some (RegularFile st_mode spk) \<Rightarrow>
            let expectedMagic = MAGIC_NUMBER ext in
            if length spk < length expectedMagic then (Inl PrematureEOF, w)
            else
              let magic = take (length expectedMagic) spk in
              if list_ex (\<lambda>i. magic ! i \<noteq> expectedMagic ! i) [0..<length expectedMagic]
              then (Inl BadMagic, w)
              else
                let w = w\<lparr>children := children w @ [(''xz'', ''-dc'')]\<rparr>;
                    (input, status) = xz_decompress ext (drop (length expectedMagic) spk)
                in
                case readSignature ext input of
                  None \<Rightarrow> (Inl ParseFailed, w)
                | Some ((publicKey, sigBytes), archive) \<Rightarrow>
                    if length publicKey \<noteq> 32
                    then (Inl (MalformedSignature ''Invalid public key.''), w)
                    else if length sigBytes \<noteq> crypto_hash_BYTES ext + crypto_sign_BYTES ext
                    then (Inl (MalformedSignature ''Invalid signature format.''), w)
                    else
                      case crypto_sign_open ext sigBytes publicKey of
                        None \<Rightarrow> (Inl InvalidSignature, w)
                      | Some expectedHash \<Rightarrow>
                          if length expectedHash \<noteq> crypto_hash_BYTES ext
                          then (Inl (MalformedSignature ''Wrong signature size.''), w)
                          else if status \<noteq> 0 then (Inl (ChildFailed status), w)
                          else if take (crypto_hash_BYTES ext) expectedHash
                                    \<noteq> take (crypto_hash_BYTES ext) (crypto_hash ext archive)
                          then (Inl ContentMismatch, w)
                          else
                            case readArchive ext archive of
                              None \<Rightarrow> (Inl ParseFailed, w)
                            | Some files \<Rightarrow>
                                (case sys_mkdir (process_umask w) (namespace w) dirname (octal [7, 7, 7]) of
                                   Inl e \<Rightarrow> (Inl e, w)
                                 | Inr ns \<Rightarrow>
                                     (case unpackDir (process_umask w) files dirname (entries_of ns dirname) of
                                        (Some e, d) \<Rightarrow> (Inl e, w\<lparr>namespace := set_entries ns dirname d\<rparr>)
                                      | (None, d) \<Rightarrow>
                                          (printAppId onlyPrintId publicKey spkfile,
                                           w\<lparr>namespace := set_entries ns dirname d\<rparr>)))
        | Some _ \<Rightarrow> (Inl (SyscallFailed ''read''), w))"

subsection \<open>Trees and archives as the specification describes them\<close>






subsection \<open>A small instance of the external parts\<close>

text \<open>
  The theorems about \<^verbatim>\<open>doUnpack\<close> hold for every choice of the external parts. To
  run the model on concrete packages, this instance has a magic number of two bytes, a
  hash of one byte (the length of the input), signatures of two bytes \<open>[h, tag]\<close> that
  do not open for tag 0, open to the empty message for tag 1 and to \<open>[h]\<close> otherwise, a
  decompressor that copies its input, and an archive of one file.
\<close>

definition example_externals :: externals where
  "example_externals =
     \<lparr>MAGIC_NUMBER = [0x8F, 0xC6],
      crypto_hash_BYTES = 1,
      crypto_sign_BYTES = 1,
      crypto_hash = (\<lambda>bs. [of_nat (length bs)]),
      crypto_sign_open = (\<lambda>sigBytes publicKey.
         if sigBytes ! 1 = 0 then None
         else if sigBytes ! 1 = 1 then Some []
         else Some [sigBytes ! 0]),
      xz_decompress = (\<lambda>bs. (bs, 0)),
      readSignature = (\<lambda>bs.
         if length bs < 34 then None
         else Some ((take 32 bs, take 2 (drop 32 bs)), drop 34 bs)),
      readArchive = (\<lambda>bs. Some [(''payload'', Regular bs)])\<rparr>"

definition example_package :: "byte \<Rightarrow> byte \<Rightarrow> byte list \<Rightarrow> byte list" where
  "example_package h tag archive = [0x8F, 0xC6] @ replicate 32 7 @ [h, tag] @ archive"

definition example_world :: "byte list \<Rightarrow> world" where
  "example_world spk =
     \<lparr>namespace = [(''app.spk'', RegularFile (octal [6, 4, 4]) spk)],
      process_umask = octal [0, 2, 2],
      children = []\<rparr>"

section \<open>Verification of the codec\<close>

subsection \<open>Bits of a word, most significant first\<close>

text \<open>
  \<open>lowbits k w\<close> lists the \<open>k\<close> low bits of \<open>w\<close>, the highest first. Shifting
  bits into a buffer appends to this list, and reading the bits above a position takes a
  prefix of it. Both loops keep their pending bits in the low \<^verbatim>\<open>bitsLeft\<close> bits of
  \<^verbatim>\<open>buffer\<close>; what the shifts push beyond bit 31 is never read.
\<close>

lemma length_lowbits [simp]: "length (lowbits k w) = k"
  by (simp add: lowbits_def)

lemma nth_lowbits: "i < k \<Longrightarrow> lowbits k w ! i = bit w (k - Suc i)"
  by (simp add: lowbits_def rev_nth)

lemma lowbits_0 [simp]: "lowbits 0 w = []"
  by (simp add: lowbits_def)

lemma lowbits_cong:
  "(\<And>i. i < k \<Longrightarrow> bit w i = bit v i) \<Longrightarrow> lowbits k w = lowbits k v"
  by (simp add: lowbits_def)

lemma lowbits_append: "lowbits (k + p) w = lowbits k (drop_bit p w) @ lowbits p w"
proof (rule nth_equalityI)
  show "length (lowbits (k + p) w) = length (lowbits k (drop_bit p w) @ lowbits p w)"
    by simp
next
  fix i assume "i < length (lowbits (k + p) w)"
  then have i: "i < k + p" by simp
  show "lowbits (k + p) w ! i = (lowbits k (drop_bit p w) @ lowbits p w) ! i"
  proof (cases "i < k")
    case True
    then have "k + p - Suc i = p + (k - Suc i)" by simp
    with True i show ?thesis
      by (simp add: nth_append nth_lowbits bit_drop_bit_eq)
  next
    case False
    then have "k + p - Suc i = p - Suc (i - k)" by simp
    with False i show ?thesis
      by (simp add: nth_append nth_lowbits)
  qed
qed

lemma take_lowbits: "j \<le> k \<Longrightarrow> take j (lowbits k w) = lowbits j (drop_bit (k - j) w)"
  using lowbits_append [of j "k - j" w] by simp

lemma drop_lowbits: "j \<le> k \<Longrightarrow> drop j (lowbits k w) = lowbits (k - j) w"
  using lowbits_append [of j "k - j" w] by simp

lemma value_of_lowbits: "value_of_bits (lowbits k w) = unat (take_bit k w)"
proof -
  have "horner_sum of_bool 2 (map (bit (unat w)) [0..<k]) = take_bit k (unat w)"
    by (rule horner_sum_bit_eq_take_bit)
  then show ?thesis
    by (simp add: value_of_bits_def lowbits_def unsigned_take_bit_eq bit_unsigned_iff cong: map_cong)
qed

lemma lowbits_refill:
  fixes buffer :: uint and b :: byte
  assumes "k + 8 \<le> 32"
  shows "lowbits (k + 8) (push_bit 8 buffer OR (ucast b AND 0xFF)) = lowbits k buffer @ lowbits 8 b"
proof -
  let ?w = "push_bit 8 buffer OR (ucast b AND 0xFF) :: uint"
  have m: "(0xFF :: uint) = mask 8" by (simp add: mask_eq_exp_minus_1)
  have "lowbits k (drop_bit 8 ?w) = lowbits k buffer"
    using assms by (intro lowbits_cong) (auto simp: m bit_simps)
  moreover have "lowbits 8 ?w = lowbits 8 b"
    by (intro lowbits_cong) (auto simp: m bit_simps)
  ultimately show ?thesis
    by (simp add: lowbits_append)
qed

lemma lowbits_pad:
  fixes buffer :: uint
  assumes "k + p \<le> 32"
  shows "lowbits (k + p) (push_bit p buffer) = lowbits k buffer @ replicate p False"
proof -
  have "lowbits k (drop_bit p (push_bit p buffer)) = lowbits k buffer"
    using assms by (intro lowbits_cong) (auto simp: bit_simps)
  moreover have "lowbits p (push_bit p buffer) = replicate p False"
    by (rule nth_equalityI) (auto simp: nth_lowbits bit_simps)
  ultimately show ?thesis
    by (simp add: lowbits_append)
qed

lemma index_bits:
  fixes buffer :: uint
  assumes "5 \<le> k"
  shows "unat (0x1F AND drop_bit (k - 5) buffer) = value_of_bits (take 5 (lowbits k buffer))"
proof -
  have m: "(0x1F :: uint) = mask 5" by (simp add: mask_eq_exp_minus_1)
  have "0x1F AND drop_bit (k - 5) buffer = take_bit 5 (drop_bit (k - 5) buffer)"
    by (simp add: m take_bit_eq_mask and.commute)
  then show ?thesis
    using assms by (simp add: take_lowbits value_of_lowbits)
qed

subsection \<open>The encoder loop, one step at a time\<close>

text \<open>
  The bits the encoder still has to write are the pending bits of the buffer followed by
  the bits of the bytes it has not read. Each pass of the loop writes the character of the
  first five of them, after reading a byte or padding with zeros when fewer than five are
  pending. The induction is on the number of these bits; it needs \<^verbatim>\<open>next\<close> not to
  wrap, that is an input of fewer than \<open>2 ^ 32\<close> bytes.
\<close>

lemma groups5_Nil [simp]: "groups5 [] = []"
  by (simp add: groups5.simps)

lemma groups5_nonempty: "bs \<noteq> [] \<Longrightarrow> groups5 bs = take 5 (bs @ replicate 4 False) # groups5 (drop 5 bs)"
  by (subst groups5.simps) simp

lemma groups5_count: "0 < (n::nat) \<Longrightarrow> Suc ((n - 5 + 4) div 5) = (n + 4) div 5"
proof (cases "5 \<le> n")
  case True
  then obtain m where "n = m + 5" by (metis le_add_diff_inverse2)
  then show ?thesis by simp
next
  case False
  assume "0 < n"
  with False have "(n + 4) div 5 = 1"
    by (intro div_nat_eqI) simp_all
  with False show ?thesis by simp
qed

lemma length_groups5: "length (groups5 bs) = (length bs + 4) div 5"
proof (induction bs rule: groups5.induct)
  case (1 bs)
  show ?case
  proof (cases "bs = []")
    case True
    then show ?thesis by simp
  next
    case False
    then have "length bs > 0" by simp
    then have "Suc ((length bs - 5 + 4) div 5) = (length bs + 4) div 5" by (rule groups5_count)
    with 1 False show ?thesis
      by (simp add: groups5_nonempty)
  qed
qed

lemma stream_drop: "i < length data \<Longrightarrow> stream (drop i data) = lowbits 8 (data ! i) @ stream (drop (Suc i) data)"
  by (simp add: stream_def Cons_nth_drop_Suc [symmetric])

lemma stream_drop_all [simp]: "length data \<le> i \<Longrightarrow> stream (drop i data) = []"
  by (simp add: stream_def)

lemma length_stream [simp]: "length (stream data) = 8 * length data"
  by (induction data) (simp_all add: stream_def)

text \<open>One pass through the loop body once the buffer holds at least five bits.\<close>

lemma encode_emit:
  fixes buffer bl :: uint
  assumes bl: "5 \<le> unat bl" "unat bl \<le> 12"
    and c: "unat count < length result"
  shows "encode_loop data buffer nxt bl count result =
         encode_loop data buffer nxt (bl - 5) (count + 1)
           (result[unat count := enc_char (take 5 (lowbits (unat bl) buffer))])"
proof -
  have nl: "\<not> bl < 5" using bl by (simp add: word_less_nat_alt)
  have pos: "0 < bl" using bl by (simp add: word_less_nat_alt)
  have u: "unat (bl - 5) = unat bl - 5"
    using bl by (simp add: unat_sub word_le_nat_alt)
  show ?thesis
    by (subst encode_loop.simps) (simp add: nl pos u c index_bits bl enc_char_def)
qed

lemma groups5_take:
  "5 \<le> length bs \<Longrightarrow> groups5 (bs @ cs) = take 5 bs # groups5 (drop 5 bs @ cs)"
  by (subst groups5.simps) auto

lemma groups5_short:
  "bs \<noteq> [] \<Longrightarrow> length bs \<le> 5 \<Longrightarrow> groups5 bs = [bs @ replicate (5 - length bs) False]"
  by (subst groups5.simps) (cases bs; simp add: min_def)

lemma stream_Nil [simp]: "stream [] = []"
  by (simp add: stream_def)

lemma encode_refill:
  fixes buffer bl nxt :: uint
  assumes "unat bl < 5" "unat nxt < length data"
  shows "encode_loop data buffer nxt bl count result =
         encode_loop data (push_bit 8 buffer OR (ucast (data ! unat nxt) AND 0xFF)) (nxt + 1) (bl + 8)
           count result"
proof -
  have lt: "bl < 5" using assms by (simp add: word_less_nat_alt)
  have u: "unat (bl + 8) = unat bl + 8"
    using assms by (simp add: unat_add_lem [THEN iffD1])
  then have nl: "\<not> bl + 8 < 5" "0 < bl + 8"
    by (simp_all add: word_less_nat_alt)
  show ?thesis
    by (subst encode_loop.simps, subst (2) encode_loop.simps) (simp add: lt nl assms)
qed

lemma encode_pad:
  fixes buffer bl nxt :: uint
  assumes "unat bl < 5" "0 < unat bl" "length data \<le> unat nxt"
  shows "encode_loop data buffer nxt bl count result =
         encode_loop data (push_bit (5 - unat bl) buffer) nxt 5 count result"
proof -
  have lt: "bl < 5" "0 < bl" using assms by (simp_all add: word_less_nat_alt)
  have u: "unat (5 - bl) = 5 - unat bl"
    using assms by (simp add: unat_sub word_le_nat_alt)
  have nn: "\<not> unat nxt < length data" using assms by simp
  show ?thesis
    by (subst encode_loop.simps, subst (2) encode_loop.simps) (simp add: lt u nn)
qed

lemma encode_loop_correct:
  fixes buffer nxt bl count :: uint
  assumes n: "length data < 2 ^ 32"
  shows "\<lbrakk>unat nxt \<le> length data; unat bl \<le> 8;
          R = lowbits (unat bl) buffer @ stream (drop (unat nxt) data);
          unat count + length (groups5 R) \<le> length result\<rbrakk> \<Longrightarrow>
         \<exists>cnt res.
           encode_loop data buffer nxt bl count result = Some (Inr (cnt, res))
         \<and> length res = length result
         \<and> (length result < 2 ^ 32 \<longrightarrow>
               cnt = count + of_nat (length (groups5 R))
             \<and> res = take (unat count) result @ map enc_char (groups5 R)
                    @ drop (unat count + length (groups5 R)) result)"
proof (induction "length R" arbitrary: R buffer nxt bl count result rule: less_induct)
  case less
  note R = less.prems(3)
  show ?case
  proof (cases "unat bl = 0 \<and> length data \<le> unat nxt")
    case True
    then have "bl = 0" by (simp add: unat_eq_0)
    with True R show ?thesis
      by (subst encode_loop.simps) simp
  next
    case False
    then have "0 < length R"
      using R by auto
    then have Rne: "R \<noteq> []" by simp
    then have gR: "groups5 R = take 5 (R @ replicate 4 False) # groups5 (drop 5 R)"
      by (rule groups5_nonempty)
    with less.prems(4) have c: "unat count < length result" by simp
    have c1: "unat (count + 1) = unat count + 1" if "length result < 2 ^ 32"
      using c that by (simp add: unat_add_lem [THEN iffD1])
    have c1': "unat (count + 1) \<le> unat count + 1"
      by (simp add: unat_word_ariths)
    have "\<exists>buffer' nxt' bl'.
            encode_loop data buffer nxt bl count result = encode_loop data buffer' nxt' bl' count result
          \<and> 5 \<le> unat bl' \<and> unat bl' \<le> 12 \<and> unat nxt' \<le> length data
          \<and> take 5 (lowbits (unat bl') buffer') = take 5 (R @ replicate 4 False)
          \<and> lowbits (unat bl' - 5) buffer' @ stream (drop (unat nxt') data) = drop 5 R"
    proof (cases "5 \<le> unat bl")
      case True
      with less.prems(1,2) R show ?thesis
        by (intro exI [of _ buffer] exI [of _ nxt] exI [of _ bl]) (simp add: drop_lowbits)
    next
      case small: False
      show ?thesis
      proof (cases "unat nxt < length data")
        case True
        let ?b = "push_bit 8 buffer OR (ucast (data ! unat nxt) AND 0xFF)"
        have u: "unat (bl + 8) = unat bl + 8"
          using small by (simp add: unat_add_lem [THEN iffD1])
        have un: "unat (nxt + 1) = Suc (unat nxt)"
          using True n by (simp add: unat_add_lem [THEN iffD1])
        have lb: "lowbits (unat bl + 8) ?b = lowbits (unat bl) buffer @ lowbits 8 (data ! unat nxt)"
          using small by (intro lowbits_refill) simp
        have R': "R = lowbits (unat bl + 8) ?b @ stream (drop (Suc (unat nxt)) data)"
          using R True by (simp add: lb stream_drop)
        have e: "encode_loop data buffer nxt bl count result =
                 encode_loop data ?b (nxt + 1) (bl + 8) count result"
          using small True by (intro encode_refill) simp_all
        show ?thesis
          using small True
          by (intro exI [of _ ?b] exI [of _ "nxt + 1"] exI [of _ "bl + 8"])
             (simp add: e u un R' drop_lowbits)
      next
        case False
        with \<open>\<not> (unat bl = 0 \<and> length data \<le> unat nxt)\<close> have pos: "0 < unat bl" by simp
        let ?b = "push_bit (5 - unat bl) buffer"
        have lb: "lowbits (unat bl + (5 - unat bl)) ?b = lowbits (unat bl) buffer @ replicate (5 - unat bl) False"
          using small by (intro lowbits_pad) simp
        then have lb5: "lowbits 5 ?b = lowbits (unat bl) buffer @ replicate (5 - unat bl) False"
          using small by simp
        have R': "R = lowbits (unat bl) buffer"
          using R False by simp
        have e: "encode_loop data buffer nxt bl count result =
                 encode_loop data ?b nxt 5 count result"
          using small False pos by (intro encode_pad) simp_all
        show ?thesis
          using small False pos less.prems(1)
          by (intro exI [of _ ?b] exI [of _ nxt] exI [of _ 5])
             (simp add: e lb5 R')
      qed
    qed
    then obtain buffer' nxt' bl' where
      e: "encode_loop data buffer nxt bl count result = encode_loop data buffer' nxt' bl' count result"
      and bl': "5 \<le> unat bl'" "unat bl' \<le> 12" and nxt': "unat nxt' \<le> length data"
      and hd: "take 5 (lowbits (unat bl') buffer') = take 5 (R @ replicate 4 False)"
      and tl: "lowbits (unat bl' - 5) buffer' @ stream (drop (unat nxt') data) = drop 5 R"
      by blast
    define g where "g = take 5 (R @ replicate 4 False)"
    define res0 where "res0 = result[unat count := enc_char g]"
    have u: "unat (bl' - 5) = unat bl' - 5"
      using bl' by (simp add: unat_sub word_le_nat_alt)
    have step: "encode_loop data buffer' nxt' bl' count result =
                encode_loop data buffer' nxt' (bl' - 5) (count + 1) res0"
      using encode_emit [OF bl' c] hd by (simp add: res0_def g_def)
    have len: "length (drop 5 R) < length R"
      using Rne by simp
    have gR': "groups5 R = g # groups5 (drop 5 R)"
      using gR by (simp add: g_def)
    have lres: "length res0 = length result"
      by (simp add: res0_def)
    have "\<exists>cnt res.
           encode_loop data buffer' nxt' (bl' - 5) (count + 1) res0 = Some (Inr (cnt, res))
         \<and> length res = length res0
         \<and> (length res0 < 2 ^ 32 \<longrightarrow>
               cnt = count + 1 + of_nat (length (groups5 (drop 5 R)))
             \<and> res = take (unat (count + 1)) res0 @ map enc_char (groups5 (drop 5 R))
                    @ drop (unat (count + 1) + length (groups5 (drop 5 R))) res0)"
      using less.prems(4) bl' nxt' c1'
      by (intro less.hyps [OF len]) (simp_all add: u tl gR' lres)
    then obtain cnt res where
      run: "encode_loop data buffer' nxt' (bl' - 5) (count + 1) res0 = Some (Inr (cnt, res))"
      and lr: "length res = length result"
      and fn: "length result < 2 ^ 32 \<Longrightarrow>
               cnt = count + 1 + of_nat (length (groups5 (drop 5 R)))
             \<and> res = take (unat (count + 1)) res0 @ map enc_char (groups5 (drop 5 R))
                    @ drop (unat (count + 1) + length (groups5 (drop 5 R))) res0"
      by (auto simp: lres)
    have t: "take (Suc (unat count)) res0 = take (unat count) result @ [enc_char g]"
      using c by (simp add: take_Suc_conv_app_nth res0_def)
    have d: "drop (Suc (unat count + length (groups5 (drop 5 R)))) res0
             = drop (Suc (unat count + length (groups5 (drop 5 R)))) result"
      by (simp add: res0_def)
    have "cnt = count + of_nat (length (groups5 R))
        \<and> res = take (unat count) result @ map enc_char (groups5 R)
               @ drop (unat count + length (groups5 R)) result" if small: "length result < 2 ^ 32"
      using fn [OF small] by (simp add: c1 [OF small] gR' t d)
    then show ?thesis
      unfolding e step run using lr by blast
  qed
qed

subsection \<open>The decode table and the decoder loop\<close>

text \<open>
  The table is evaluated once. The decoder keeps fewer than eight pending bits between two
  characters; a character adds five bits, and when eight are there the highest eight are
  written as a byte. The invariant
  \<open>8 * unat count + length S < 8 * length result + 8\<close>, where \<open>S\<close> is the stream of
  bits still to be consumed, keeps every write in bounds, also when \<^verbatim>\<open>count\<close> wraps.
\<close>

lemma decodeTable_eval:
  "decodeTable = [
      255, 255, 255, 255, 255, 255, 255, 255, 255, 255, 255, 255, 255, 255, 255, 255,
      255, 255, 255, 255, 255, 255, 255, 255, 255, 255, 255, 255, 255, 255, 255, 255,
      255, 255, 255, 255, 255, 255, 255, 255, 255, 255, 255, 255, 255, 255, 255, 255,
      0, 1, 2, 3, 4, 5, 6, 7, 8, 9, 255, 255, 255, 255, 255, 255,
      255, 10, 8, 11, 12, 13, 14, 15, 16, 1, 17, 18, 1, 19, 20, 0,
      21, 22, 23, 24, 25, 26, 27, 28, 29, 30, 31, 255, 255, 255, 255, 255,
      255, 10, 8, 11, 12, 13, 14, 15, 16, 1, 17, 18, 1, 19, 20, 0,
      21, 22, 23, 24, 25, 26, 27, 28, 29, 30, 31, 255, 255, 255, 255, 255,
      255, 255, 255, 255, 255, 255, 255, 255, 255, 255, 255, 255, 255, 255, 255, 255,
      255, 255, 255, 255, 255, 255, 255, 255, 255, 255, 255, 255, 255, 255, 255, 255,
      255, 255, 255, 255, 255, 255, 255, 255, 255, 255, 255, 255, 255, 255, 255, 255,
      255, 255, 255, 255, 255, 255, 255, 255, 255, 255, 255, 255, 255, 255, 255, 255,
      255, 255, 255, 255, 255, 255, 255, 255, 255, 255, 255, 255, 255, 255, 255, 255,
      255, 255, 255, 255, 255, 255, 255, 255, 255, 255, 255, 255, 255, 255, 255, 255,
      255, 255, 255, 255, 255, 255, 255, 255, 255, 255, 255, 255, 255, 255, 255, 255,
      255, 255, 255, 255, 255, 255, 255, 255, 255, 255, 255, 255, 255, 255, 255, 255]"
  by code_simp

declare decodeTable_eval [code]

lemma decodeTable_range: "\<forall>c. decodeTable ! of_char c \<le> 31 \<or> decodeTable ! of_char c = 255"
  by code_simp

lemma valid_char_31: "valid_char c \<Longrightarrow> decodeTable ! of_char c \<le> 31"
  using decodeTable_range [THEN spec, of c] by (auto simp: valid_char_def)

lemma decodeTable_inverse: "\<forall>i \<in> set [0..<32]. decodeTable ! of_char (BASE32_ENCODE_TABLE ! i) = of_nat i"
  by code_simp

lemma decode_step_invalid:
  "\<not> valid_char c \<Longrightarrow> decode_loop esize (c # cs) buffer bl count result = Inl InvalidEncoding"
  by (simp add: valid_char_def)

lemma decode_step_keep:
  fixes bl :: uint
  assumes "valid_char c" "unat bl < 3"
  shows "decode_loop esize (c # cs) buffer bl count result =
         decode_loop esize cs (push_bit 5 buffer OR ucast (decodeTable ! of_char c)) (bl + 5) count result"
proof -
  have "unat (bl + 5) = unat bl + 5"
    using assms by (simp add: unat_add_lem [THEN iffD1])
  with assms have "\<not> 8 \<le> bl + 5"
    by (simp add: word_le_nat_alt)
  with assms show ?thesis
    by (simp add: valid_char_def Let_def)
qed

lemma decode_step_write:
  fixes bl :: uint
  assumes "valid_char c" "3 \<le> unat bl" "unat bl < 8"
    and "unat count < length result" "length result \<le> esize"
  shows "decode_loop esize (c # cs) buffer bl count result =
         decode_loop esize cs (push_bit 5 buffer OR ucast (decodeTable ! of_char c)) (bl + 5 - 8) (count + 1)
           (result[unat count :=
              ucast (drop_bit (unat bl + 5 - 8) (push_bit 5 buffer OR ucast (decodeTable ! of_char c)))])"
proof -
  have u: "unat (bl + 5) = unat bl + 5"
    using assms by (simp add: unat_add_lem [THEN iffD1])
  with assms have ge: "8 \<le> bl + 5"
    by (simp add: word_le_nat_alt)
  have "unat (bl + 5 - 8) = unat (bl + 5) - unat (8 :: uint)"
    using ge by (intro unat_sub)
  then have "unat (bl + 5 - 8) = unat bl + 5 - 8"
    by (simp only: u) simp
  with assms ge show ?thesis
    by (simp add: valid_char_def Let_def)
qed

lemma lowbits_shift_in:
  fixes buffer :: uint and d :: byte
  assumes "d \<le> 31" "k + 5 \<le> 32"
  shows "lowbits (k + 5) (push_bit 5 buffer OR ucast d) = lowbits k buffer @ lowbits 5 d"
proof -
  let ?w = "push_bit 5 buffer OR ucast d :: uint"
  have "d < 2 ^ 5" using assms by (simp add: word_less_nat_alt word_le_nat_alt)
  then have dm: "d AND mask 5 = d" by (rule less_mask_eq)
  have hi: "\<not> bit d j" if "5 \<le> j" for j
  proof
    assume "bit d j"
    then have "bit (d AND mask 5) j" by (simp only: dm)
    then show False using that by (simp add: bit_simps)
  qed
  have "lowbits k (drop_bit 5 ?w) = lowbits k buffer"
    using assms hi by (intro lowbits_cong) (auto simp: bit_simps)
  moreover have "lowbits 5 ?w = lowbits 5 d"
    by (intro lowbits_cong) (auto simp: bit_simps)
  ultimately show ?thesis
    by (simp add: lowbits_append)
qed

lemma lowbits_byte_out:
  fixes buffer :: uint
  assumes "8 \<le> k"
  shows "lowbits 8 (ucast (drop_bit (k - 8) buffer) :: byte) = take 8 (lowbits k buffer)"
proof -
  have "lowbits 8 (ucast (drop_bit (k - 8) buffer) :: byte) = lowbits 8 (drop_bit (k - 8) buffer)"
    by (intro lowbits_cong) (auto simp: bit_simps)
  with assms show ?thesis
    by (simp add: take_lowbits)
qed

lemma char_stream_simps [simp]:
  "char_stream [] = []" "char_stream (c # cs) = sym_bits c @ char_stream cs"
  by (simp_all add: char_stream_def)

lemma length_sym_bits [simp]: "length (sym_bits c) = 5"
  by (simp add: sym_bits_def)

lemma length_char_stream [simp]: "length (char_stream cs) = 5 * length cs"
  by (induction cs) simp_all

lemma stream_Cons [simp]: "stream (b # bs) = lowbits 8 b @ stream bs"
  by (simp add: stream_def)

lemma unat_Suc_le: "unat (count + 1 :: uint) \<le> unat count + 1"
  by (simp add: unat_word_ariths)

lemma decode_loop_correct:
  fixes buffer bl count :: uint
  shows "\<lbrakk>\<forall>c\<in>set cs. valid_char c; unat bl < 8;
          S = lowbits (unat bl) buffer @ char_stream cs;
          8 * unat count + length S < 8 * length result + 8; length result \<le> esize\<rbrakk> \<Longrightarrow>
    \<exists>buffer' bl' count' result'.
       decode_loop esize cs buffer bl count result = Inr (buffer', bl', count', result')
     \<and> unat bl' = length S mod 8
     \<and> lowbits (unat bl') buffer' = drop (8 * (length S div 8)) S
     \<and> length result' = length result
     \<and> (length result < 2 ^ 32 \<longrightarrow>
          count' = count + of_nat (length S div 8)
        \<and> (\<exists>out. result' = take (unat count) result @ out @ drop (unat count + length S div 8) result
                \<and> stream out = take (8 * (length S div 8)) S
                \<and> length out = length S div 8))"
proof (induction cs arbitrary: buffer bl count result S)
  case Nil
  then show ?case by simp
next
  case (Cons c cs)
  let ?d = "decodeTable ! of_char c"
  let ?b = "push_bit 5 buffer OR ucast ?d :: uint"
  from Cons.prems(1) have vc: "valid_char c" and vcs: "\<forall>c\<in>set cs. valid_char c"
    by simp_all
  have lb: "lowbits (unat bl + 5) ?b = lowbits (unat bl) buffer @ sym_bits c"
    unfolding sym_bits_def using Cons.prems(2) valid_char_31 [OF vc]
    by (intro lowbits_shift_in) simp_all
  then have S: "S = lowbits (unat bl + 5) ?b @ char_stream cs"
    using Cons.prems(3) by simp
  show ?case
  proof (cases "unat bl < 3")
    case True
    have u: "unat (bl + 5) = unat bl + 5"
      using True by (simp add: unat_add_lem [THEN iffD1])
    have e: "decode_loop esize (c # cs) buffer bl count result =
             decode_loop esize cs ?b (bl + 5) count result"
      using vc True by (rule decode_step_keep)
    show ?thesis
      unfolding e
      using True Cons.prems(4,5) by (intro Cons.IH [OF vcs]) (simp_all add: u S)
  next
    case False
    then have ge: "3 \<le> unat bl" by simp
    have lenS: "length S = unat bl + 5 + 5 * length cs"
      by (simp add: S)
    with Cons.prems(4) ge have c: "unat count < length result"
      by simp
    define byte where "byte = (ucast (drop_bit (unat bl + 5 - 8) ?b) :: byte)"
    define res where "res = result[unat count := byte]"
    define S2 where "S2 = drop 8 S"
    define q where "q = length S2 div 8"
    have e: "decode_loop esize (c # cs) buffer bl count result =
             decode_loop esize cs ?b (bl + 5 - 8) (count + 1) res"
      unfolding res_def byte_def
      using vc ge Cons.prems(2) c Cons.prems(5) by (rule decode_step_write)
    have u5: "unat (bl + 5) = unat bl + 5"
      using Cons.prems(2) by (simp add: unat_add_lem [THEN iffD1])
    then have "8 \<le> bl + 5" using ge by (simp add: word_le_nat_alt)
    then have "unat (bl + 5 - 8) = unat (bl + 5) - unat (8 :: uint)"
      by (intro unat_sub)
    then have u: "unat (bl + 5 - 8) = unat bl + 5 - 8"
      by (simp only: u5) simp
    then have u': "unat (bl - 3) = unat bl - 3"
      by simp
    have "lowbits 8 byte = take 8 (lowbits (unat bl + 5) ?b)"
      unfolding byte_def using ge by (intro lowbits_byte_out) simp
    then have bits: "lowbits 8 byte = take 8 S"
      using ge by (simp add: S)
    have S2: "S2 = lowbits (unat bl + 5 - 8) ?b @ char_stream cs"
      unfolding S2_def using ge by (simp add: S drop_lowbits)
    have lenS2: "length S = length S2 + 8"
      unfolding S2_def using ge lenS by simp
    then have dv: "length S div 8 = Suc q" and md: "length S mod 8 = length S2 mod 8"
      by (simp_all add: q_def)
    have lres: "length res = length result"
      by (simp add: res_def)
    have inv: "8 * unat (count + 1) + length S2 < 8 * length res + 8"
      using unat_Suc_le [of count] Cons.prems(4) lenS2 by (simp add: lres)
    have "\<exists>buffer' bl' count' result'.
       decode_loop esize cs ?b (bl + 5 - 8) (count + 1) res = Inr (buffer', bl', count', result')
     \<and> unat bl' = length S2 mod 8
     \<and> lowbits (unat bl') buffer' = drop (8 * (length S2 div 8)) S2
     \<and> length result' = length res
     \<and> (length res < 2 ^ 32 \<longrightarrow>
          count' = count + 1 + of_nat (length S2 div 8)
        \<and> (\<exists>out. result' = take (unat (count + 1)) res @ out @ drop (unat (count + 1) + length S2 div 8) res
                \<and> stream out = take (8 * (length S2 div 8)) S2
                \<and> length out = length S2 div 8))"
      using Cons.prems(2,5) ge inv
      by (intro Cons.IH [OF vcs]) (simp_all add: u' S2 lres)
    then obtain buffer' bl' count' result' where
      r: "decode_loop esize cs ?b (bl + 5 - 8) (count + 1) res = Inr (buffer', bl', count', result')"
      and bl': "unat bl' = length S2 mod 8"
      and pend: "lowbits (unat bl') buffer' = drop (8 * q) S2"
      and len': "length result' = length res"
      and fn: "length res < 2 ^ 32 \<Longrightarrow>
          count' = count + 1 + of_nat q
        \<and> (\<exists>out. result' = take (unat (count + 1)) res @ out @ drop (unat (count + 1) + q) res
                \<and> stream out = take (8 * q) S2
                \<and> length out = q)"
      unfolding q_def by blast
    have pend': "lowbits (unat bl') buffer' = drop (8 * Suc q) S"
      using pend by (simp add: S2_def add.commute)
    have fn': "count' = count + of_nat (Suc q)
        \<and> (\<exists>out. result' = take (unat count) result @ out @ drop (unat count + Suc q) result
                \<and> stream out = take (8 * Suc q) S
                \<and> length out = Suc q)" if small: "length result < 2 ^ 32"
    proof -
      from small c have c1: "unat (count + 1) = Suc (unat count)"
        by (simp add: unat_add_lem [THEN iffD1])
      from fn small obtain out where
        cnt: "count' = count + 1 + of_nat q"
        and out: "result' = take (unat (count + 1)) res @ out @ drop (unat (count + 1) + q) res"
        and so: "stream out = take (8 * q) S2" and lo: "length out = q"
        by (auto simp: lres)
      have t: "take (Suc (unat count)) res = take (unat count) result @ [byte]"
        using c by (simp add: take_Suc_conv_app_nth res_def)
      have d: "drop (Suc (unat count + q)) res = drop (Suc (unat count + q)) result"
        by (simp add: res_def)
      have "result' = take (unat count) result @ (byte # out) @ drop (unat count + Suc q) result"
        by (simp add: out c1 t d)
      moreover have "stream (byte # out) = take (8 * Suc q) S"
        by (simp add: bits so S2_def take_add [symmetric] add.commute)
      ultimately show ?thesis
        using cnt lo by (intro conjI exI [of _ "byte # out"]) simp_all
    qed
    show ?thesis
      unfolding e r dv md
      using bl' pend' len' fn' by (simp add: lres)
  qed
qed

subsection \<open>The encoder as a whole\<close>

text \<open>
  With \<open>2 ^ 32\<close> bytes or more the test \<^verbatim>\<open>next < data.size()\<close> holds for every value
  of \<^verbatim>\<open>next\<close>, and the loop has no other exit: the encoder does not return. With fewer
  bytes it returns, and its result is the specified encoding when \<^verbatim>\<open>count\<close> does not
  wrap either.
\<close>

lemma encode_loop_diverges:
  assumes big: "2 ^ 32 \<le> length data" "2 ^ 32 \<le> length result"
  shows "encode_loop data buffer nxt bl count result = None"
proof -
  have lt: "unat w < n" if "2 ^ 32 \<le> n" for w :: uint and n
    using unsigned_less [of w, where ?'a = nat] that by simp
  have "\<not> (2 ^ 32 \<le> length data \<and> 2 ^ 32 \<le> length result)"
    if "encode_loop data buffer nxt bl count result = Some y" for y
  proof (rule encode_loop.raw_induct
      [where P = "\<lambda>data _ _ _ _ result _. \<not> (2 ^ 32 \<le> length data \<and> 2 ^ 32 \<le> length result)",
       OF _ that], goal_cases)
    case (1 f data buffer nxt bl count result y)
    show ?case
    proof
      assume b: "2 ^ 32 \<le> length data \<and> 2 ^ 32 \<le> length result"
      then have "unat nxt < length data" "unat count < length result"
        by (simp_all add: lt)
      with 1(2) obtain buffer' nxt' bl' res' where
        "f data buffer' nxt' bl' (count + 1) res' = Some y" and "length res' = length result"
        by (auto simp: Let_def split: if_splits prod.splits)
      with 1(1) b show False by metis
    qed
  qed
  with big show ?thesis
    by (cases "encode_loop data buffer nxt bl count result") auto
qed

lemma length_spec_encode: "length (spec_encode data) = (length data * 8 + 4) div 5"
  by (simp add: spec_encode_def length_groups5 mult.commute)

lemma lowbits_ucast_byte: "lowbits 8 (ucast (b :: byte) :: uint) = lowbits 8 b"
  by (intro lowbits_cong) (auto simp: bit_simps)

lemma encoded_size_bound: "length data \<le> (length data * 8 + 4) div 5"
proof -
  have "length data * 5 \<le> length data * 8 + 4" by simp
  then have "length data * 5 div 5 \<le> (length data * 8 + 4) div 5"
    by (rule div_le_mono)
  then show ?thesis by simp
qed

lemma base32Encode_run_returns:
  assumes n: "length data < 2 ^ 32"
  shows "\<exists>cnt res.
           base32Encode_run data = Some (Inr (cnt, res))
         \<and> length res = (length data * 8 + 4) div 5
         \<and> ((length data * 8 + 4) div 5 < 2 ^ 32 \<longrightarrow>
               cnt = of_nat ((length data * 8 + 4) div 5) \<and> res = spec_encode data)"
proof (cases data)
  case Nil
  then show ?thesis
    by (simp add: base32Encode_run_def spec_encode_def)
next
  case (Cons b bs)
  define m where "m = (length data * 8 + 4) div 5"
  define result where "result = replicate m (CHR 0x00)"
  define R where "R = stream data"
  have R: "R = lowbits (unat (8 :: uint)) (ucast (data ! 0) :: uint) @ stream (drop (unat (1 :: uint)) data)"
    using Cons by (simp add: R_def lowbits_ucast_byte)
  have g: "length (groups5 R) = m"
    by (simp add: R_def m_def length_groups5 mult.commute)
  have "\<exists>cnt res.
           encode_loop data (ucast (data ! 0)) 1 8 0 result = Some (Inr (cnt, res))
         \<and> length res = length result
         \<and> (length result < 2 ^ 32 \<longrightarrow>
               cnt = 0 + of_nat (length (groups5 R))
             \<and> res = take (unat (0 :: uint)) result @ map enc_char (groups5 R)
                    @ drop (unat (0 :: uint) + length (groups5 R)) result)"
    using Cons
    by (intro encode_loop_correct [OF n _ _ R]) (simp_all add: g result_def)
  then obtain cnt res where
    run: "encode_loop data (ucast (data ! 0)) 1 8 0 result = Some (Inr (cnt, res))"
    and lr: "length res = m"
    and fn: "m < 2 ^ 32 \<Longrightarrow> cnt = of_nat m \<and> res = spec_encode data"
    unfolding g by (auto simp: result_def spec_encode_def R_def)
  have "base32Encode_run data = Some (Inr (cnt, res))"
    using Cons run by (simp add: base32Encode_run_def m_def result_def)
  with lr fn show ?thesis
    unfolding m_def by blast
qed

lemma base32Encode_run_correct:
  assumes "(length data * 8 + 4) div 5 < 2 ^ 32"
  shows "base32Encode_run data =
         Some (Inr (of_nat ((length data * 8 + 4) div 5), spec_encode data))"
proof -
  have n: "length data < 2 ^ 32"
    using encoded_size_bound [of data] assms by simp
  from base32Encode_run_returns [OF n] assms show ?thesis
    by auto
qed

lemma base32Encode_run_diverges:
  assumes "2 ^ 32 \<le> length data"
  shows "base32Encode_run data = None"
proof -
  have pos: "0 < length data"
    using assms by (cases data) simp_all
  have "(2::nat) ^ 32 \<le> length data" by (rule assms)
  also have "\<dots> \<le> (length data * 8 + 4) div 5" by (rule encoded_size_bound)
  finally have "2 ^ 32 \<le> length (replicate ((length data * 8 + 4) div 5) (CHR 0x00))"
    by simp
  with assms pos show ?thesis
    by (simp add: base32Encode_run_def encode_loop_diverges)
qed

lemma base32Encode_run_no_error: "base32Encode_run data \<noteq> Some (Inl e)"
proof (cases "length data < 2 ^ 32")
  case True
  from base32Encode_run_returns [OF True] show ?thesis by auto
next
  case False
  then have "base32Encode_run data = None"
    by (intro base32Encode_run_diverges) simp
  then show ?thesis by simp
qed

subsection \<open>Decoding an encoded string\<close>

text \<open>
  The characters of an encoding stand for the groups of five bits they were made from, so
  the stream the decoder sees is the stream of the input followed by fewer than five
  zeros: the whole bytes of it are the input, and the bits that remain are zero.
\<close>

lemma value_of_bits_less: "value_of_bits g < 2 ^ length g"
proof -
  have "horner_sum of_bool (2::nat) (rev g) < 2 ^ length (rev g)"
    by (rule horner_sum_of_bool_2_less)
  then show ?thesis by (simp add: value_of_bits_def)
qed

lemma lowbits_of_value:
  assumes "length g = 5"
  shows "lowbits 5 (of_nat (value_of_bits g) :: byte) = g"
proof (rule nth_equalityI)
  show "length (lowbits 5 (of_nat (value_of_bits g) :: byte)) = length g"
    using assms by simp
next
  fix i assume "i < length (lowbits 5 (of_nat (value_of_bits g) :: byte))"
  then have i: "i < 5" by simp
  then show "lowbits 5 (of_nat (value_of_bits g) :: byte) ! i = g ! i"
    using assms
    by (auto simp: nth_lowbits value_of_bits_def bit_of_nat_iff bit_horner_sum_bit_iff rev_nth)
qed

lemma enc_char_decodes:
  assumes "length g = 5"
  shows "decodeTable ! of_char (enc_char g) = of_nat (value_of_bits g)"
proof -
  have "value_of_bits g < 32"
    using value_of_bits_less [of g] assms by simp
  then have "value_of_bits g \<in> set [0..<32]" by simp
  with decodeTable_inverse show ?thesis
    unfolding enc_char_def by blast
qed

lemma enc_char_valid: "length g = 5 \<Longrightarrow> valid_char (enc_char g)"
proof -
  assume g: "length g = 5"
  then have "value_of_bits g < 32"
    using value_of_bits_less [of g] by simp
  then have "(of_nat (value_of_bits g) :: byte) \<le> 32"
    by (simp add: word_le_nat_alt unat_of_nat)
  with g show ?thesis
    by (simp add: valid_char_def enc_char_decodes)
qed

lemma sym_bits_enc_char: "length g = 5 \<Longrightarrow> sym_bits (enc_char g) = g"
  by (simp add: sym_bits_def enc_char_decodes lowbits_of_value)

lemma groups5_length: "g \<in> set (groups5 bs) \<Longrightarrow> length g = 5"
proof (induction bs arbitrary: g rule: groups5.induct)
  case (1 bs)
  show ?case
  proof (cases "bs = []")
    case True
    with 1(2) show ?thesis by simp
  next
    case False
    define g0 where "g0 = take 5 (bs @ replicate 4 False)"
    have l0: "length g0 = 5"
    proof (cases bs)
      case Nil
      with False show ?thesis by simp
    next
      case (Cons b bs')
      then show ?thesis by (simp add: g0_def)
    qed
    have "groups5 bs = g0 # groups5 (drop 5 bs)"
      unfolding g0_def using False by (rule groups5_nonempty)
    with 1(2) have "g = g0 \<or> g \<in> set (groups5 (drop 5 bs))"
      by simp
    with 1(1) [OF False] l0 show ?thesis
      by blast
  qed
qed

lemma char_stream_encoded:
  "\<forall>g\<in>set gs. length g = 5 \<Longrightarrow> char_stream (map enc_char gs) = concat gs"
  by (induction gs) (simp_all add: sym_bits_enc_char)

lemma length_concat_groups5: "length (concat (groups5 bs)) = 5 * length (groups5 bs)"
proof -
  have "\<forall>g\<in>set gs. length g = 5 \<Longrightarrow> length (concat gs) = 5 * length gs" for gs :: "bool list list"
    by (induction gs) simp_all
  then show ?thesis
    using groups5_length by blast
qed

lemma concat_groups5_prefix:
  "\<exists>p<5. concat (groups5 bs) = bs @ replicate p False"
proof (induction bs rule: groups5.induct)
  case (1 bs)
  show ?case
  proof (cases "bs = []")
    case True
    then show ?thesis by simp
  next
    case False
    note ne = this
    show ?thesis
    proof (cases "5 \<le> length bs")
      case True
      from 1 ne obtain p where p: "p < 5" "concat (groups5 (drop 5 bs)) = drop 5 bs @ replicate p False"
        by blast
      have "concat (groups5 bs) = take 5 bs @ concat (groups5 (drop 5 bs))"
        using ne True by (simp add: groups5_nonempty)
      also have "\<dots> = (take 5 bs @ drop 5 bs) @ replicate p False"
        by (simp only: p append_assoc)
      finally have "concat (groups5 bs) = bs @ replicate p False"
        by simp
      with p(1) show ?thesis by blast
    next
      case False
      then have "5 - length bs < 5" using ne by (cases bs) simp_all
      moreover have "concat (groups5 bs) = bs @ replicate (5 - length bs) False"
        using False ne by (simp add: groups5_short)
      ultimately show ?thesis by blast
    qed
  qed
qed

lemma decode_loop_invalid:
  fixes buffer bl count :: uint
  shows "\<lbrakk>\<not> (\<forall>c\<in>set cs. valid_char c); unat bl < 8;
          8 * unat count + (unat bl + 5 * length cs) < 8 * length result + 8;
          length result \<le> esize\<rbrakk> \<Longrightarrow>
         decode_loop esize cs buffer bl count result = Inl InvalidEncoding"
proof (induction cs arbitrary: buffer bl count result)
  case Nil
  then show ?case by simp
next
  case (Cons c cs)
  let ?b = "push_bit 5 buffer OR ucast (decodeTable ! of_char c) :: uint"
  show ?case
  proof (cases "valid_char c")
    case False
    then show ?thesis by (rule decode_step_invalid)
  next
    case vc: True
    with Cons.prems(1) have rest: "\<not> (\<forall>c\<in>set cs. valid_char c)" by simp
    show ?thesis
    proof (cases "unat bl < 3")
      case True
      have u: "unat (bl + 5) = unat bl + 5"
        using True by (simp add: unat_add_lem [THEN iffD1])
      have e: "decode_loop esize (c # cs) buffer bl count result =
               decode_loop esize cs ?b (bl + 5) count result"
        using vc True by (rule decode_step_keep)
      show ?thesis
        unfolding e using True Cons.prems(3,4)
        by (intro Cons.IH [OF rest]) (simp_all add: u)
    next
      case False
      then have ge: "3 \<le> unat bl" by simp
      with Cons.prems(3) have c: "unat count < length result" by simp
      define res where "res = result[unat count := ucast (drop_bit (unat bl + 5 - 8) ?b)]"
      have e: "decode_loop esize (c # cs) buffer bl count result =
               decode_loop esize cs ?b (bl + 5 - 8) (count + 1) res"
        unfolding res_def
        using vc ge Cons.prems(2) c Cons.prems(4) by (rule decode_step_write)
      have u5: "unat (bl + 5) = unat bl + 5"
        using Cons.prems(2) by (simp add: unat_add_lem [THEN iffD1])
      then have "8 \<le> bl + 5" using ge by (simp add: word_le_nat_alt)
      then have "unat (bl + 5 - 8) = unat (bl + 5) - unat (8 :: uint)"
        by (intro unat_sub)
      then have "unat (bl + 5 - 8) = unat bl + 5 - 8"
        by (simp only: u5) simp
      then have u': "unat (bl - 3) = unat bl - 3"
        by simp
      have lres: "length res = length result"
        by (simp add: res_def)
      show ?thesis
        unfolding e using unat_Suc_le [of count] Cons.prems(2,3,4) ge
        by (intro Cons.IH [OF rest]) (simp_all add: u' lres)
    qed
  qed
qed

lemma trailing_check:
  fixes buffer :: uint
  shows "buffer AND (push_bit k 1 - 1) = 0 \<longleftrightarrow> lowbits k buffer = replicate k False"
proof -
  have m: "push_bit k 1 - 1 = (mask k :: uint)"
    by (simp add: mask_eq_exp_minus_1 push_bit_of_1)
  have "buffer AND mask k = 0 \<longleftrightarrow> (\<forall>i<k. \<not> bit buffer i)"
  proof
    assume z: "buffer AND mask k = 0"
    show "\<forall>i<k. \<not> bit buffer i"
    proof (intro allI impI notI)
      fix i assume "i < k" "bit buffer i"
      then have "bit (buffer AND mask k) i"
        by (auto simp: bit_simps dest: bit_imp_possible_bit)
      with z show False by simp
    qed
  next
    assume "\<forall>i<k. \<not> bit buffer i"
    then show "buffer AND mask k = 0"
      by (intro bit_eqI) (auto simp: bit_simps)
  qed
  also have "\<dots> \<longleftrightarrow> lowbits k buffer = replicate k False"
  proof
    assume a: "\<forall>i<k. \<not> bit buffer i"
    show "lowbits k buffer = replicate k False"
      by (rule nth_equalityI) (simp_all add: nth_lowbits a)
  next
    assume a: "lowbits k buffer = replicate k False"
    show "\<forall>i<k. \<not> bit buffer i"
    proof (intro allI impI)
      fix i assume i: "i < k"
      then have "lowbits k buffer ! (k - Suc i) = bit buffer i"
        by (simp add: nth_lowbits)
      with a i show "\<not> bit buffer i" by simp
    qed
  qed
  finally show ?thesis by (simp only: m)
qed

lemma lowbits_8_inj: "lowbits 8 (a :: byte) = lowbits 8 b \<Longrightarrow> a = b"
proof (rule bit_eqI)
  fix i
  assume e: "lowbits 8 a = lowbits 8 b" and "possible_bit TYPE(byte) i"
  then have i: "i < 8" by (simp add: possible_bit_def)
  then have "lowbits 8 a ! (7 - i) = bit a i" "lowbits 8 b ! (7 - i) = bit b i"
    by (simp_all add: nth_lowbits)
  with e show "bit a i = bit b i" by simp
qed

lemma stream_inj: "length xs = length ys \<Longrightarrow> stream xs = stream ys \<Longrightarrow> xs = ys"
proof (induction xs ys rule: list_induct2)
  case Nil
  then show ?case by simp
next
  case (Cons x xs y ys)
  from Cons.prems have "lowbits 8 x = lowbits 8 y \<and> stream xs = stream ys"
    by simp
  with Cons.IH show ?case
    by (simp add: lowbits_8_inj)
qed

lemma decoded_size_le: "n * 5 div 8 \<le> (n::nat)"
proof -
  have "n * 5 div 8 \<le> n * 8 div 8"
    by (rule div_le_mono) simp
  then show ?thesis by simp
qed

lemma decode_run_valid:
  assumes v: "\<forall>c\<in>set s. valid_char c"
  shows "\<exists>cnt out.
           decode_run s =
             (if drop (8 * (length s * 5 div 8)) (char_stream s) = replicate (length s * 5 mod 8) False
              then Inr (cnt, out) else Inl TrailingBits)
         \<and> length out = length s * 5 div 8
         \<and> (length s * 5 div 8 < 2 ^ 32 \<longrightarrow>
              cnt = of_nat (length s * 5 div 8)
            \<and> stream out = take (8 * (length s * 5 div 8)) (char_stream s))"
proof -
  define q where "q = length s * 5 div 8"
  define r where "r = length s * 5 mod 8"
  define S where "S = char_stream s"
  define result where "result = replicate q (0 :: byte)"
  have lenS: "length S = length s * 5"
    by (simp add: S_def)
  have qr: "length S = 8 * q + r" "r < 8"
    by (simp_all add: q_def r_def lenS)
  have dq: "length S div 8 = q" and mr: "length S mod 8 = r"
    by (simp_all add: q_def r_def lenS)
  have S0: "S = lowbits (unat (0 :: uint)) (0 :: uint) @ char_stream s"
    by (simp add: S_def)
  have inv: "8 * unat (0 :: uint) + length S < 8 * length result + 8"
    using qr by (simp add: result_def)
  have le: "length result \<le> length s"
    by (simp add: result_def q_def decoded_size_le)
  from decode_loop_correct [OF v _ S0 inv le]
  obtain buffer' bl' count' result' where
    run: "decode_loop (length s) s 0 0 0 result = Inr (buffer', bl', count', result')"
    and bl': "unat bl' = r"
    and pend: "lowbits (unat bl') buffer' = drop (8 * q) S"
    and len': "length result' = length result"
    and fn: "length result < 2 ^ 32 \<longrightarrow>
          count' = 0 + of_nat q
        \<and> (\<exists>out. result' = take (unat (0 :: uint)) result @ out @ drop (unat (0 :: uint) + q) result
                \<and> stream out = take (8 * q) S \<and> length out = q)"
    unfolding dq mr by auto
  have "buffer' AND (push_bit (unat bl') 1 - 1) = 0 \<longleftrightarrow> drop (8 * q) S = replicate r False"
    unfolding trailing_check pend by (simp only: bl')
  then have chk: "buffer' AND (2 ^ r - 1) = 0 \<longleftrightarrow> drop (8 * q) S = replicate r False"
    by (simp add: bl' push_bit_of_1)
  have d: "decode_run s = (if drop (8 * q) S = replicate r False then Inr (count', result') else Inl TrailingBits)"
    using run chk by (simp add: decode_run_def result_def q_def Let_def bl' push_bit_of_1)
  have "count' = of_nat q \<and> stream result' = take (8 * q) S" if "q < 2 ^ 32"
  proof -
    from fn that obtain out where
      "count' = of_nat q" "result' = out @ drop q result" "stream out = take (8 * q) S" "length out = q"
      by (auto simp: result_def)
    then show ?thesis by (simp add: result_def)
  qed
  with d len' show ?thesis
    unfolding q_def [symmetric] r_def [symmetric] S_def [symmetric]
    by (intro exI [of _ count'] exI [of _ result']) (simp add: result_def)
qed

lemma decode_run_invalid:
  assumes "\<not> (\<forall>c\<in>set s. valid_char c)"
  shows "decode_run s = Inl InvalidEncoding"
proof -
  define q where "q = length s * 5 div 8"
  define r where "r = length s * 5 mod 8"
  have qr: "5 * length s = 8 * q + r" "r < 8"
    by (simp_all add: q_def r_def mult.commute)
  have "decode_loop (length s) s 0 0 0 (replicate q 0) = Inl InvalidEncoding"
    using qr by (intro decode_loop_invalid [OF assms]) (simp_all add: q_def decoded_size_le)
  then show ?thesis
    by (simp add: decode_run_def q_def)
qed

lemma decode_run_spec_encode:
  assumes "length data < 2 ^ 32"
  shows "decode_run (spec_encode data) = Inr (of_nat (length data), data)"
proof -
  define s where "s = spec_encode data"
  define n where "n = length data"
  have v: "\<forall>c\<in>set s. valid_char c"
    by (auto simp: s_def spec_encode_def enc_char_valid groups5_length)
  have cs: "char_stream s = concat (groups5 (stream data))"
    unfolding s_def spec_encode_def by (intro char_stream_encoded) (simp add: groups5_length)
  obtain p where p: "p < 5" "char_stream s = stream data @ replicate p False"
    using concat_groups5_prefix [of "stream data"] cs by auto
  have "length (char_stream s) = 8 * n + p"
    by (simp add: p n_def)
  then have l5: "length s * 5 = 8 * n + p"
    by (simp add: mult.commute)
  have dq: "length s * 5 div 8 = n" and mr: "length s * 5 mod 8 = p"
    using p(1) by (simp_all add: l5)
  from decode_run_valid [OF v] obtain cnt out where
    d: "decode_run s = (if drop (8 * n) (char_stream s) = replicate p False then Inr (cnt, out) else Inl TrailingBits)"
    and lo: "length out = n"
    and fn: "n < 2 ^ 32 \<longrightarrow> cnt = of_nat n \<and> stream out = take (8 * n) (char_stream s)"
    unfolding dq mr by blast
  have "drop (8 * n) (char_stream s) = replicate p False"
    by (simp add: p n_def)
  moreover have "cnt = of_nat n" "stream out = stream data"
    using fn assms by (simp_all add: n_def p)
  moreover have "out = data"
    using lo \<open>stream out = stream data\<close> by (intro stream_inj) (simp_all add: n_def)
  ultimately show ?thesis
    using d by (simp add: s_def n_def)
qed

subsection \<open>The decoder from its initial state\<close>

lemma decode_loop_start_valid:
  assumes v: "\<forall>c\<in>set s. valid_char c"
  shows "\<exists>buffer bl cnt res.
           decode_loop (length s) s 0 0 0 (replicate (length s * 5 div 8) 0) = Inr (buffer, bl, cnt, res)
         \<and> length res = length s * 5 div 8
         \<and> (length s * 5 div 8 < 2 ^ 32 \<longrightarrow> cnt = of_nat (length s * 5 div 8))"
proof -
  define q where "q = length s * 5 div 8"
  define r where "r = length s * 5 mod 8"
  define S where "S = char_stream s"
  define result where "result = replicate q (0 :: byte)"
  have lenS: "length S = length s * 5"
    by (simp add: S_def)
  have qr: "length S = 8 * q + r" "r < 8"
    by (simp_all add: q_def r_def lenS)
  have dq: "length S div 8 = q"
    by (simp add: q_def lenS)
  have S0: "S = lowbits (unat (0 :: uint)) (0 :: uint) @ char_stream s"
    by (simp add: S_def)
  have inv: "8 * unat (0 :: uint) + length S < 8 * length result + 8"
    using qr by (simp add: result_def)
  have le: "length result \<le> length s"
    by (simp add: result_def q_def decoded_size_le)
  from decode_loop_correct [OF v _ S0 inv le]
  obtain buffer' bl' count' result' where
    run: "decode_loop (length s) s 0 0 0 result = Inr (buffer', bl', count', result')"
    and len': "length result' = length result"
    and fn: "length result < 2 ^ 32 \<longrightarrow> count' = 0 + of_nat q"
    unfolding dq by auto
  then show ?thesis
    unfolding q_def [symmetric] result_def [symmetric]
    by (auto simp: result_def)
qed

lemma decode_loop_start_invalid:
  assumes "\<not> (\<forall>c\<in>set s. valid_char c)"
  shows "decode_loop (length s) s 0 0 0 (replicate (length s * 5 div 8) 0) = Inl InvalidEncoding"
proof -
  define q where "q = length s * 5 div 8"
  define r where "r = length s * 5 mod 8"
  have qr: "5 * length s = 8 * q + r" "r < 8"
    by (simp_all add: q_def r_def mult.commute)
  show ?thesis
    unfolding q_def [symmetric]
    using qr by (intro decode_loop_invalid [OF assms]) (simp_all add: q_def decoded_size_le)
qed

lemma all_False_iff: "xs = replicate (length xs) False \<longleftrightarrow> True \<notin> set xs"
  by (induction xs) auto

lemma spec_encode_ceiling:
  "8 * length data \<le> 5 * length (spec_encode data) \<and> 5 * length (spec_encode data) < 8 * length data + 5"
proof -
  obtain p where p: "p < 5" "concat (groups5 (stream data)) = stream data @ replicate p False"
    using concat_groups5_prefix [of "stream data"] by blast
  have "5 * length (groups5 (stream data)) = length (stream data) + p"
    using length_concat_groups5 [of "stream data"] p(2) by simp
  with p(1) show ?thesis
    by (simp add: spec_encode_def)
qed

lemma decode_valid_cases:
  assumes v: "\<forall>c\<in>set s. valid_char c"
  shows "(True \<in> set (drop (8 * (length s * 5 div 8)) (char_stream s)) \<longrightarrow> decode s = Inl TrailingBits)
       \<and> (True \<notin> set (drop (8 * (length s * 5 div 8)) (char_stream s))
            \<longrightarrow> (\<exists>bytes. decode s = Inr bytes \<and> length bytes = length s * 5 div 8))"
proof -
  define tail where "tail = drop (8 * (length s * 5 div 8)) (char_stream s)"
  have "length tail = length s * 5 - 8 * (length s * 5 div 8)"
    by (simp add: tail_def mult.commute)
  also have "\<dots> = length s * 5 mod 8"
    by (simp add: minus_mult_div_eq_mod)
  finally have lt: "length tail = length s * 5 mod 8" .
  from decode_run_valid [OF v] obtain cnt out where
    d: "decode_run s = (if tail = replicate (length s * 5 mod 8) False then Inr (cnt, out) else Inl TrailingBits)"
    and lo: "length out = length s * 5 div 8"
    unfolding tail_def by blast
  have "tail = replicate (length s * 5 mod 8) False \<longleftrightarrow> True \<notin> set tail"
    using all_False_iff [of tail] by (simp add: lt)
  with d lo show ?thesis
    unfolding tail_def [symmetric] by (auto simp: decode_def)
qed

section \<open>Claims about the codec\<close>

text \<open>
  Claim C3 (round trip of the codec). For every byte sequence \<open>x\<close> whose encoding has
  fewer than \<open>2 ^ 32\<close> characters, \<^verbatim>\<open>base32Encode\<close> returns a string and
  \<^verbatim>\<open>decode\<close> of that string returns \<open>x\<close>. In particular the single byte \<open>0xFF\<close>
  is encoded as \<open>''zw''\<close>, and \<open>''zw''\<close> is decoded to that byte.
\<close>

theorem base32_round_trip:
  assumes "(length x * 8 + 4) div 5 < 2 ^ 32"
  shows "(\<exists>s. base32Encode x = Some (Inr s) \<and> decode s = Inr x)
       \<and> base32Encode [0xFF] = Some (Inr ''zw'')
       \<and> decode ''zw'' = Inr [0xFF]"
proof -
  have n: "length x < 2 ^ 32"
    using encoded_size_bound [of x] assms by simp
  have "base32Encode x = Some (Inr (spec_encode x))"
    by (simp add: base32Encode_def base32Encode_run_correct [OF assms])
  moreover have "decode (spec_encode x) = Inr x"
    by (simp add: decode_def decode_run_spec_encode [OF n])
  moreover have "base32Encode [0xFF] = Some (Inr ''zw'')"
    by code_simp
  moreover have "decode ''zw'' = Inr [0xFF]"
    by code_simp
  ultimately show ?thesis by blast
qed

theorem base32_round_trip_witness:
  "(length [0x12, 0x34, 0xAB :: byte] * 8 + 4) div 5 < (2::nat) ^ 32
   \<and> (\<exists>s. base32Encode [0x12, 0x34, 0xAB] = Some (Inr s) \<and> decode s = Inr [0x12, 0x34, 0xAB])"
  using base32_round_trip [of "[0x12, 0x34, 0xAB]"] by simp

text \<open>
  The bound is needed: \<^verbatim>\<open>next\<close> is a \<^verbatim>\<open>uint\<close>, so for an input of \<open>2 ^ 32\<close>
  bytes the test \<^verbatim>\<open>next < data.size()\<close> never fails and the encoder does not return.
\<close>

theorem base32_round_trip_counterexample:
  "base32Encode (replicate (2 ^ 32) 0) = None"
  by (simp add: base32Encode_def base32Encode_run_diverges)

text \<open>
  Claim C7 (the encoding). For every input of \<open>n\<close> bytes whose encoding has fewer than
  \<open>2 ^ 32\<close> characters, \<^verbatim>\<open>base32Encode\<close> returns, without an error, the string the
  specification describes: the bits of the input, most significant first, five at a time,
  the last group filled with zeros, each group as the character of the alphabet it
  selects. The string has \<open>(8 n + 4) div 5\<close> characters, which is the least number
  \<open>m\<close> with \<open>8 n \<le> 5 m\<close>.
\<close>

theorem base32Encode_five_bit_groups:
  assumes "(length data * 8 + 4) div 5 < 2 ^ 32"
  shows "base32Encode data = Some (Inr (spec_encode data))
       \<and> length (spec_encode data) = (length data * 8 + 4) div 5
       \<and> 8 * length data \<le> 5 * length (spec_encode data)
       \<and> 5 * length (spec_encode data) < 8 * length data + 5"
proof -
  have "base32Encode data = Some (Inr (spec_encode data))"
    by (simp add: base32Encode_def base32Encode_run_correct [OF assms])
  then show ?thesis
    using spec_encode_ceiling [of data] by (simp add: length_spec_encode)
qed

theorem base32Encode_five_bit_groups_witness:
  "(length [0xFF, 0x01 :: byte] * 8 + 4) div 5 < (2::nat) ^ 32
   \<and> base32Encode [0xFF, 0x01] = Some (Inr (spec_encode [0xFF, 0x01]))
   \<and> spec_encode [0xFF, 0x01] = ''zw0h''
   \<and> length (spec_encode [0xFF, 0x01]) = 4"
proof -
  have "spec_encode [0xFF, 0x01] = ''zw0h''"
    by code_simp
  with base32Encode_five_bit_groups [of "[0xFF, 0x01]"] show ?thesis
    by simp
qed

text \<open>
  Without the bound the encoder need not return: on \<open>2 ^ 32\<close> bytes it runs forever.
\<close>

theorem base32Encode_five_bit_groups_counterexample:
  "base32Encode (replicate (2 ^ 32) 0xFF) = None"
  by (simp add: base32Encode_def base32Encode_run_diverges)

text \<open>
  Claim C8 (the decode table and the errors of decoding). The table gives every character
  of the alphabet its index, gives an upper-case letter the value of its lower-case letter,
  and reads \<open>o\<close> as \<open>0\<close>, \<open>i\<close> and \<open>l\<close> as \<open>1\<close> and \<open>b\<close> as \<open>8\<close>. The
  characters it accepts are the digits and the letters of both cases, each with a value
  below 32. Decoding a string with any other character fails with \<open>InvalidEncoding\<close>.
  Decoding a string of accepted characters fails with \<open>TrailingBits\<close> when one of the
  bits that remain after the last whole byte is set, and returns
  \<open>length s * 5 div 8\<close> bytes otherwise.
\<close>

theorem decode_table_and_errors:
  "(\<forall>i<32. decodeTable ! of_char (BASE32_ENCODE_TABLE ! i) = of_nat i)
   \<and> map (\<lambda>c. decodeTable ! of_char c) ''ABCDEFGHIJKLMNOPQRSTUVWXYZ''
       = map (\<lambda>c. decodeTable ! of_char c) ''abcdefghijklmnopqrstuvwxyz''
   \<and> decodeTable ! of_char CHR ''o'' = decodeTable ! of_char CHR ''0''
   \<and> decodeTable ! of_char CHR ''i'' = decodeTable ! of_char CHR ''1''
   \<and> decodeTable ! of_char CHR ''l'' = decodeTable ! of_char CHR ''1''
   \<and> decodeTable ! of_char CHR ''b'' = decodeTable ! of_char CHR ''8''
   \<and> (valid_char c \<longleftrightarrow>
        c \<in> set ''0123456789abcdefghijklmnopqrstuvwxyzABCDEFGHIJKLMNOPQRSTUVWXYZ'')
   \<and> (valid_char c \<longrightarrow> decodeTable ! of_char c < 32)
   \<and> ((\<exists>c\<in>set s. \<not> valid_char c) \<longrightarrow> decode s = Inl InvalidEncoding)
   \<and> ((\<forall>c\<in>set s. valid_char c) \<and> True \<in> set (drop (8 * (length s * 5 div 8)) (char_stream s))
        \<longrightarrow> decode s = Inl TrailingBits)
   \<and> ((\<forall>c\<in>set s. valid_char c) \<and> True \<notin> set (drop (8 * (length s * 5 div 8)) (char_stream s))
        \<longrightarrow> (\<exists>bytes. decode s = Inr bytes \<and> length bytes = length s * 5 div 8))"
proof -
  have t1: "\<forall>i<32. decodeTable ! of_char (BASE32_ENCODE_TABLE ! i) = of_nat i"
    using decodeTable_inverse by simp
  have t2: "map (\<lambda>c. decodeTable ! of_char c) ''ABCDEFGHIJKLMNOPQRSTUVWXYZ''
       = map (\<lambda>c. decodeTable ! of_char c) ''abcdefghijklmnopqrstuvwxyz''"
    by code_simp
  have t3: "decodeTable ! of_char CHR ''o'' = decodeTable ! of_char CHR ''0''"
    "decodeTable ! of_char CHR ''i'' = decodeTable ! of_char CHR ''1''"
    "decodeTable ! of_char CHR ''l'' = decodeTable ! of_char CHR ''1''"
    "decodeTable ! of_char CHR ''b'' = decodeTable ! of_char CHR ''8''"
    by code_simp+
  have "\<forall>c. valid_char c \<longleftrightarrow>
        c \<in> set ''0123456789abcdefghijklmnopqrstuvwxyzABCDEFGHIJKLMNOPQRSTUVWXYZ''"
    by code_simp
  then have t4: "valid_char c \<longleftrightarrow>
        c \<in> set ''0123456789abcdefghijklmnopqrstuvwxyzABCDEFGHIJKLMNOPQRSTUVWXYZ''"
    by (rule spec)
  have t5: "valid_char c \<longrightarrow> decodeTable ! of_char c < 32"
  proof
    assume "valid_char c"
    then have "decodeTable ! of_char c \<le> 31" by (rule valid_char_31)
    then show "decodeTable ! of_char c < 32"
      by (simp add: word_le_nat_alt word_less_nat_alt)
  qed
  have e1: "(\<exists>c\<in>set s. \<not> valid_char c) \<longrightarrow> decode s = Inl InvalidEncoding"
  proof
    assume "\<exists>c\<in>set s. \<not> valid_char c"
    then have "\<not> (\<forall>c\<in>set s. valid_char c)" by blast
    then show "decode s = Inl InvalidEncoding"
      by (simp add: decode_def decode_run_invalid)
  qed
  have e2: "(\<forall>c\<in>set s. valid_char c) \<and> True \<in> set (drop (8 * (length s * 5 div 8)) (char_stream s))
        \<longrightarrow> decode s = Inl TrailingBits"
    using decode_valid_cases [of s] by blast
  have e3: "(\<forall>c\<in>set s. valid_char c) \<and> True \<notin> set (drop (8 * (length s * 5 div 8)) (char_stream s))
        \<longrightarrow> (\<exists>bytes. decode s = Inr bytes \<and> length bytes = length s * 5 div 8)"
    using decode_valid_cases [of s] by blast
  from t1 t2 t3 t4 t5 e1 e2 e3 show ?thesis
    by (intro conjI)
qed

theorem decode_table_and_errors_witness:
  "\<not> valid_char CHR ''!'' \<and> decode ''z!'' = Inl InvalidEncoding
   \<and> valid_char CHR ''z'' \<and> decodeTable ! of_char CHR ''z'' < 32
   \<and> True \<in> set (drop (8 * (length ''zz'' * 5 div 8)) (char_stream ''zz''))
   \<and> decode ''zz'' = Inl TrailingBits
   \<and> True \<notin> set (drop (8 * (length ''ZW'' * 5 div 8)) (char_stream ''ZW''))
   \<and> decode ''ZW'' = Inr [0xFF]"
proof -
  have inv: "\<exists>c\<in>set ''z!''. \<not> valid_char c" "\<not> valid_char CHR ''!''"
    by code_simp+
  have val: "\<forall>c\<in>set ''zz''. valid_char c" "\<forall>c\<in>set ''ZW''. valid_char c" "valid_char CHR ''z''"
    by code_simp+
  have bits: "True \<in> set (drop (8 * (length ''zz'' * 5 div 8)) (char_stream ''zz''))"
    "True \<notin> set (drop (8 * (length ''ZW'' * 5 div 8)) (char_stream ''ZW''))"
    by code_simp+
  have run: "decode ''ZW'' = Inr [0xFF]"
    by code_simp
  from decode_table_and_errors [of "CHR ''z''" "''z!''"] inv
  have a: "decode ''z!'' = Inl InvalidEncoding" "decodeTable ! of_char CHR ''z'' < 32"
    using val(3) by blast+
  from decode_table_and_errors [of "CHR ''z''" "''zz''"] val(1) bits(1)
  have b: "decode ''zz'' = Inl TrailingBits"
    by blast
  from a b inv val bits run show ?thesis
    by (intro conjI)
qed

text \<open>
  Claim C9 (writes stay in bounds). \<^verbatim>\<open>base32Encode\<close> never fails its assertion
  \<^verbatim>\<open>count < result.size()\<close>, on any input; when the encoding has fewer than
  \<open>2 ^ 32\<close> characters it returns with \<^verbatim>\<open>count\<close> equal to the size of the result,
  which is \<open>(8 n + 4) div 5\<close>. The loop of \<^verbatim>\<open>decode\<close> never writes outside its result of
  \<open>5 m div 8\<close> bytes and never fails its assertion \<^verbatim>\<open>count < encoded.size()\<close>, on
  any input; when every character is accepted and \<open>5 m div 8 < 2 ^ 32\<close>, it ends with
  \<^verbatim>\<open>count\<close> equal to the size of the result.
\<close>

theorem codec_writes_in_bounds:
  "base32Encode_run data \<noteq> Some (Inl e)
   \<and> ((length data * 8 + 4) div 5 < 2 ^ 32 \<longrightarrow>
        (\<exists>cnt result. base32Encode_run data = Some (Inr (cnt, result))
            \<and> unat cnt = (length data * 8 + 4) div 5
            \<and> length result = (length data * 8 + 4) div 5))
   \<and> decode_loop (length s) s 0 0 0 (replicate (length s * 5 div 8) 0) \<noteq> Inl (AssertionFailed a)
   \<and> decode_loop (length s) s 0 0 0 (replicate (length s * 5 div 8) 0) \<noteq> Inl OutOfBounds
   \<and> ((\<forall>c\<in>set s. valid_char c) \<and> length s * 5 div 8 < 2 ^ 32 \<longrightarrow>
        (\<exists>buffer bitsLeft cnt result.
            decode_loop (length s) s 0 0 0 (replicate (length s * 5 div 8) 0)
              = Inr (buffer, bitsLeft, cnt, result)
            \<and> unat cnt = length s * 5 div 8
            \<and> length result = length s * 5 div 8))"
proof (intro conjI impI)
  show "base32Encode_run data \<noteq> Some (Inl e)"
    by (rule base32Encode_run_no_error)
next
  assume m: "(length data * 8 + 4) div 5 < 2 ^ 32"
  have "unat (of_nat ((length data * 8 + 4) div 5) :: uint) = (length data * 8 + 4) div 5"
    using m by (simp add: unat_of_nat)
  then show "\<exists>cnt result. base32Encode_run data = Some (Inr (cnt, result))
            \<and> unat cnt = (length data * 8 + 4) div 5
            \<and> length result = (length data * 8 + 4) div 5"
    by (simp add: base32Encode_run_correct [OF m] length_spec_encode)
next
  show "decode_loop (length s) s 0 0 0 (replicate (length s * 5 div 8) 0) \<noteq> Inl (AssertionFailed a)"
    using decode_loop_start_valid [of s] decode_loop_start_invalid [of s]
    by (cases "\<forall>c\<in>set s. valid_char c") auto
next
  show "decode_loop (length s) s 0 0 0 (replicate (length s * 5 div 8) 0) \<noteq> Inl OutOfBounds"
    using decode_loop_start_valid [of s] decode_loop_start_invalid [of s]
    by (cases "\<forall>c\<in>set s. valid_char c") auto
next
  assume a: "(\<forall>c\<in>set s. valid_char c) \<and> length s * 5 div 8 < 2 ^ 32"
  then have "unat (of_nat (length s * 5 div 8) :: uint) = length s * 5 div 8"
    by (simp add: unat_of_nat)
  with decode_loop_start_valid [of s] a
  show "\<exists>buffer bitsLeft cnt result.
            decode_loop (length s) s 0 0 0 (replicate (length s * 5 div 8) 0)
              = Inr (buffer, bitsLeft, cnt, result)
            \<and> unat cnt = length s * 5 div 8
            \<and> length result = length s * 5 div 8"
    by auto
qed

theorem codec_writes_in_bounds_witness:
  "(length [0x12, 0x34, 0x56 :: byte] * 8 + 4) div 5 < (2::nat) ^ 32
   \<and> (\<exists>cnt result. base32Encode_run [0x12, 0x34, 0x56] = Some (Inr (cnt, result))
         \<and> unat cnt = 5 \<and> length result = 5)
   \<and> list_all valid_char ''28t5c'' \<and> length ''28t5c'' * 5 div 8 < (2::nat) ^ 32
   \<and> (\<exists>buffer bitsLeft cnt result.
         decode_loop (length ''28t5c'') ''28t5c'' 0 0 0 (replicate (length ''28t5c'' * 5 div 8) 0)
           = Inr (buffer, bitsLeft, cnt, result)
         \<and> unat cnt = 3 \<and> length result = 3)"
proof -
  have v: "\<forall>c\<in>set ''28t5c''. valid_char c"
    by code_simp
  from codec_writes_in_bounds [of "[0x12, 0x34, 0x56]" _ "''28t5c''"] v
  show ?thesis
    by (simp add: list_all_iff)
qed

text \<open>
  The bound on the size is needed for the encoder to perform its \<open>(8 n + 4) div 5\<close>
  writes and return: \<^verbatim>\<open>next\<close> and \<^verbatim>\<open>count\<close> are \<^verbatim>\<open>uint\<close>, and on an input of
  \<open>2 ^ 32\<close> bytes the loop never ends (each of its writes is in bounds all the same).
\<close>

theorem codec_writes_in_bounds_counterexample:
  "base32Encode_run (replicate (2 ^ 32) 1) = None"
  by (simp add: base32Encode_run_diverges)

section \<open>Verification of the archiver and the unpacker\<close>

subsection \<open>System calls on a directory\<close>













subsection \<open>Unpacking a list of files that continues another\<close>

text \<open>
  The loop over a list \<open>pre @ rest\<close> is the loop over \<open>pre\<close> followed, when that
  ends without an error, by the loop over \<open>rest\<close> with the names of \<open>pre\<close> seen. The
  archiver produces well-formed archives from well-formed trees, and what unpacking leaves
  of such an archive is the same tree again.
\<close>

lemma unpackDir_loop_append:
  "unpackDir_loop umask (pre @ rest) dirname seen dir =
     (case unpackDir_loop umask pre dirname seen dir of
        (None, dir') \<Rightarrow> unpackDir_loop umask rest dirname (seen \<union> fst ` set pre) dir'
      | (Some e, dir') \<Rightarrow> (Some e, dir'))"
proof (induction pre arbitrary: seen dir)
  case Nil
  then show ?case by simp
next
  case (Cons f pre)
  obtain name which where f: "f = (name, which)" by (cases f)
  have s: "insert name seen \<union> fst ` set pre = seen \<union> fst ` set ((name, which) # pre)" by auto
  show ?case
    unfolding f s [symmetric]
    by (simp add: Cons.IH Let_def split: variant.splits sum.splits prod.splits option.splits)
qed






subsection \<open>When unpacking succeeds\<close>



subsection \<open>The steps of \<^verbatim>\<open>doUnpack\<close>\<close>

text \<open>
  The loop that compares the magic number finds a difference exactly when the prefix of
  the file is not the constant. Once the signature record is read and has the expected
  sizes, \<^verbatim>\<open>doUnpack\<close> is the rest of its definition, from the opening of the signature
  on.
\<close>

lemma magic_mismatch_iff:
  assumes "length expectedMagic \<le> length spk"
  shows "list_ex (\<lambda>i. take (length expectedMagic) spk ! i \<noteq> expectedMagic ! i) [0..<length expectedMagic]
         \<longleftrightarrow> take (length expectedMagic) spk \<noteq> expectedMagic"
proof -
  let ?k = "length expectedMagic"
  have len: "length (take ?k spk) = ?k"
    using assms by simp
  have "list_ex (\<lambda>i. take ?k spk ! i \<noteq> expectedMagic ! i) [0..<?k]
        \<longleftrightarrow> (\<exists>i<?k. take ?k spk ! i \<noteq> expectedMagic ! i)"
    unfolding list_ex_iff by (simp only: set_upt atLeastLessThan_iff Bex_def) blast
  also have "\<dots> \<longleftrightarrow> \<not> (\<forall>i<?k. take ?k spk ! i = expectedMagic ! i)"
    by blast
  also have "\<dots> \<longleftrightarrow> take ?k spk \<noteq> expectedMagic"
    unfolding list_eq_iff_nth_eq [of "take ?k spk" expectedMagic] len by blast
  finally show ?thesis .
qed

lemma doUnpack_checks_magic:
  assumes "\<not> sys_access (namespace w) dirname"
    and "map_of (namespace w) spkfile = Some (RegularFile st_mode spk)"
    and "length (MAGIC_NUMBER ext) \<le> length spk"
    and "take (length (MAGIC_NUMBER ext)) spk \<noteq> MAGIC_NUMBER ext"
  shows "doUnpack ext onlyPrintId spkfile dirname w = (Inl BadMagic, w)"
  using assms by (simp add: doUnpack_def magic_mismatch_iff Let_def)

lemma doUnpack_no_child:
  assumes "map_of (namespace w) spkfile = Some (RegularFile st_mode spk)"
    and "take (length (MAGIC_NUMBER ext)) spk \<noteq> MAGIC_NUMBER ext"
  shows "snd (doUnpack ext onlyPrintId spkfile dirname w) = w"
proof (cases "length (MAGIC_NUMBER ext) \<le> length spk")
  case True
  with assms show ?thesis
    by (simp add: doUnpack_def magic_mismatch_iff Let_def)
next
  case False
  with assms show ?thesis
    by (simp add: doUnpack_def Let_def)
qed

lemma doUnpack_after_signature:
  assumes "\<not> sys_access (namespace w) dirname"
    and "map_of (namespace w) spkfile = Some (RegularFile st_mode spk)"
    and "length (MAGIC_NUMBER ext) \<le> length spk"
    and "take (length (MAGIC_NUMBER ext)) spk = MAGIC_NUMBER ext"
    and "xz_decompress ext (drop (length (MAGIC_NUMBER ext)) spk) = (input, status)"
    and "readSignature ext input = Some ((publicKey, sigBytes), archive)"
    and "length publicKey = 32"
    and "length sigBytes = crypto_hash_BYTES ext + crypto_sign_BYTES ext"
  shows "doUnpack ext onlyPrintId spkfile dirname w =
     (let w = w\<lparr>children := children w @ [(''xz'', ''-dc'')]\<rparr> in
      case crypto_sign_open ext sigBytes publicKey of
        None \<Rightarrow> (Inl InvalidSignature, w)
      | Some expectedHash \<Rightarrow>
          if length expectedHash \<noteq> crypto_hash_BYTES ext
          then (Inl (MalformedSignature ''Wrong signature size.''), w)
          else if status \<noteq> 0 then (Inl (ChildFailed status), w)
          else if take (crypto_hash_BYTES ext) expectedHash
                    \<noteq> take (crypto_hash_BYTES ext) (crypto_hash ext archive)
          then (Inl ContentMismatch, w)
          else
            case readArchive ext archive of
              None \<Rightarrow> (Inl ParseFailed, w)
            | Some files \<Rightarrow>
                (case sys_mkdir (process_umask w) (namespace w) dirname (octal [7, 7, 7]) of
                   Inl e \<Rightarrow> (Inl e, w)
                 | Inr ns \<Rightarrow>
                     (case unpackDir (process_umask w) files dirname (entries_of ns dirname) of
                        (Some e, d) \<Rightarrow> (Inl e, w\<lparr>namespace := set_entries ns dirname d\<rparr>)
                      | (None, d) \<Rightarrow>
                          (printAppId onlyPrintId publicKey spkfile,
                           w\<lparr>namespace := set_entries ns dirname d\<rparr>))))"
proof -
  have m: "\<not> list_ex (\<lambda>i. take (length (MAGIC_NUMBER ext)) spk ! i \<noteq> MAGIC_NUMBER ext ! i)
             [0..<length (MAGIC_NUMBER ext)]"
    using magic_mismatch_iff [OF assms(3)] assms(4) by blast
  show ?thesis
    unfolding doUnpack_def using assms(1,2,3,5,6,7,8) m
    by (simp add: Let_def)
qed

section \<open>Claims about packing and unpacking\<close>





text \<open>
  Claim C6 (invalid names). A name is invalid exactly when it is empty, contains \<open>/\<close>,
  contains a NUL byte, or is \<open>.\<close> or \<open>..\<close>. When unpacking reaches an entry with an
  invalid name it stops with \<open>InvalidName\<close>, and the directory is as the entries before
  it left it: nothing is written for the entry.
\<close>

theorem invalid_name_rejected:
  "(valid_name name \<longleftrightarrow>
      name \<noteq> [] \<and> CHR ''/'' \<notin> set name \<and> CHR 0x00 \<notin> set name \<and> name \<noteq> ''.'' \<and> name \<noteq> ''..'')
   \<and> (\<not> valid_name name \<and> unpackDir umask pre dirname dir = (None, dir')
      \<longrightarrow> unpackDir umask (pre @ (name, which) # rest) dirname dir = (Some (InvalidName name), dir'))"
proof (intro conjI impI)
  show "valid_name name \<longleftrightarrow>
      name \<noteq> [] \<and> CHR ''/'' \<notin> set name \<and> CHR 0x00 \<notin> set name \<and> name \<noteq> ''.'' \<and> name \<noteq> ''..''"
    by (auto simp: valid_name_def)
next
  assume "\<not> valid_name name \<and> unpackDir umask pre dirname dir = (None, dir')"
  then show "unpackDir umask (pre @ (name, which) # rest) dirname dir = (Some (InvalidName name), dir')"
    by (simp add: unpackDir_def unpackDir_loop_append)
qed

theorem invalid_name_rejected_witness:
  "\<not> valid_name ''../evil''
   \<and> unpackDir 0 [(''a'', Regular [1])] ''out'' [] = (None, [(''a'', RegularFile (octal [6, 6, 6]) [1])])
   \<and> unpackDir 0 ([(''a'', Regular [1])] @ (''../evil'', Regular [6, 6, 6]) # [(''b'', Regular [])]) ''out'' []
       = (Some (InvalidName ''../evil''), [(''a'', RegularFile (octal [6, 6, 6]) [1])])"
proof -
  have 1: "unpackDir 0 [(''a'', Regular [1])] ''out'' [] = (None, [(''a'', RegularFile (octal [6, 6, 6]) [1])])"
    by (simp add: unpackDir_def valid_name_def sys_access_def raiiOpen_def sys_write_def put_def)
  have 2: "\<not> valid_name ''../evil''"
    by (simp add: valid_name_def)
  from invalid_name_rejected
    [of "''../evil''" 0 "[(''a'', Regular [1])]" "''out''" "[]" "[(''a'', RegularFile (octal [6, 6, 6]) [1])]"
        "Regular [6, 6, 6]" "[(''b'', Regular [])]"]
  show ?thesis
    using 1 2 by simp
qed



section \<open>Claims about the verification of a package\<close>

text \<open>
  Claim C4 (the magic number comes first). When the output directory does not exist yet and
  the package file has at least as many bytes as the magic number but does not begin with
  it, \<^verbatim>\<open>doUnpack\<close> fails with \<open>BadMagic\<close> and leaves the state as it was. And
  whenever the package file does not begin with the magic number, whatever else happens,
  no child process has been started when \<^verbatim>\<open>doUnpack\<close> ends.
\<close>

theorem bad_magic_no_subprocess:
  "(\<not> sys_access (namespace w) dirname
      \<and> map_of (namespace w) spkfile = Some (RegularFile st_mode spk)
      \<and> length (MAGIC_NUMBER ext) \<le> length spk
      \<and> take (length (MAGIC_NUMBER ext)) spk \<noteq> MAGIC_NUMBER ext
      \<longrightarrow> doUnpack ext onlyPrintId spkfile dirname w = (Inl BadMagic, w))
   \<and> (map_of (namespace w) spkfile = Some (RegularFile st_mode spk)
      \<and> take (length (MAGIC_NUMBER ext)) spk \<noteq> MAGIC_NUMBER ext
      \<longrightarrow> children (snd (doUnpack ext onlyPrintId spkfile dirname w)) = children w)"
  by (simp add: doUnpack_checks_magic doUnpack_no_child)

theorem bad_magic_no_subprocess_witness:
  "\<not> sys_access (namespace (example_world [0x8F, 0, 1, 2])) ''app''
   \<and> map_of (namespace (example_world [0x8F, 0, 1, 2])) ''app.spk''
       = Some (RegularFile (octal [6, 4, 4]) [0x8F, 0, 1, 2])
   \<and> length (MAGIC_NUMBER example_externals) \<le> length [0x8F, 0, 1, 2 :: byte]
   \<and> take (length (MAGIC_NUMBER example_externals)) [0x8F, 0, 1, 2] \<noteq> MAGIC_NUMBER example_externals
   \<and> doUnpack example_externals False ''app.spk'' ''app'' (example_world [0x8F, 0, 1, 2])
       = (Inl BadMagic, example_world [0x8F, 0, 1, 2])
   \<and> children (snd (doUnpack example_externals False ''app.spk'' ''app'' (example_world [0x8F, 0, 1, 2]))) = []"
proof -
  have 1: "\<not> sys_access (namespace (example_world [0x8F, 0, 1, 2])) ''app''"
    "map_of (namespace (example_world [0x8F, 0, 1, 2])) ''app.spk''
       = Some (RegularFile (octal [6, 4, 4]) [0x8F, 0, 1, 2])"
    "length (MAGIC_NUMBER example_externals) \<le> length [0x8F, 0, 1, 2 :: byte]"
    "take (length (MAGIC_NUMBER example_externals)) [0x8F, 0, 1, 2] \<noteq> MAGIC_NUMBER example_externals"
    "children (example_world [0x8F, 0, 1, 2]) = []"
    by (simp_all add: example_world_def example_externals_def sys_access_def)
  from bad_magic_no_subprocess
    [of "example_world [0x8F, 0, 1, 2]" "''app''" "''app.spk''" "octal [6, 4, 4]" "[0x8F, 0, 1, 2]"
        example_externals False]
  show ?thesis
    using 1 by simp
qed

text \<open>
  Claim C2 (the order of the checks on the signature). Let \<^verbatim>\<open>doUnpack\<close> have read a
  signature record whose key and signature have the expected sizes. If the signature does
  not open, the operation fails with \<open>InvalidSignature\<close>, whatever the archive is. If it
  opens to a message whose length is not that of a hash, the operation fails with
  \<open>MalformedSignature\<close>, whatever the archive is. If it opens to a hash, the decompressor
  has ended with status 0, and the hash of the bytes that remain in the stream is not the
  hash from the signature, the operation fails with \<open>ContentMismatch\<close>. In each case the
  operation ends there: the state is the one in which the child was started, and nothing
  has been unpacked.
\<close>

theorem signature_checks_in_order:
  assumes "\<not> sys_access (namespace w) dirname"
    and "map_of (namespace w) spkfile = Some (RegularFile st_mode spk)"
    and "length (MAGIC_NUMBER ext) \<le> length spk"
    and "take (length (MAGIC_NUMBER ext)) spk = MAGIC_NUMBER ext"
    and "xz_decompress ext (drop (length (MAGIC_NUMBER ext)) spk) = (input, status)"
    and "readSignature ext input = Some ((publicKey, sigBytes), archive)"
    and "length publicKey = 32"
    and "length sigBytes = crypto_hash_BYTES ext + crypto_sign_BYTES ext"
  shows "(crypto_sign_open ext sigBytes publicKey = None
            \<longrightarrow> doUnpack ext onlyPrintId spkfile dirname w
                  = (Inl InvalidSignature, w\<lparr>children := children w @ [(''xz'', ''-dc'')]\<rparr>))
       \<and> (crypto_sign_open ext sigBytes publicKey = Some h \<and> length h \<noteq> crypto_hash_BYTES ext
            \<longrightarrow> doUnpack ext onlyPrintId spkfile dirname w
                  = (Inl (MalformedSignature ''Wrong signature size.''),
                     w\<lparr>children := children w @ [(''xz'', ''-dc'')]\<rparr>))
       \<and> (crypto_sign_open ext sigBytes publicKey = Some h \<and> length h = crypto_hash_BYTES ext
            \<and> status = 0 \<and> h \<noteq> take (crypto_hash_BYTES ext) (crypto_hash ext archive)
            \<longrightarrow> doUnpack ext onlyPrintId spkfile dirname w
                  = (Inl ContentMismatch, w\<lparr>children := children w @ [(''xz'', ''-dc'')]\<rparr>))"
  unfolding doUnpack_after_signature [OF assms]
  by (simp add: Let_def)

theorem signature_checks_in_order_witness:
  "doUnpack example_externals False ''app.spk'' ''app'' (example_world (example_package 5 0 [9]))
     = (Inl InvalidSignature, (example_world (example_package 5 0 [9]))\<lparr>children := [(''xz'', ''-dc'')]\<rparr>)
   \<and> doUnpack example_externals False ''app.spk'' ''app'' (example_world (example_package 5 1 [9]))
     = (Inl (MalformedSignature ''Wrong signature size.''),
        (example_world (example_package 5 1 [9]))\<lparr>children := [(''xz'', ''-dc'')]\<rparr>)
   \<and> doUnpack example_externals False ''app.spk'' ''app'' (example_world (example_package 5 2 [9]))
     = (Inl ContentMismatch, (example_world (example_package 5 2 [9]))\<lparr>children := [(''xz'', ''-dc'')]\<rparr>)"
proof -
  {
    fix tag :: byte and h :: "byte list"
    have reach:
      "\<not> sys_access (namespace (example_world (example_package 5 tag [9]))) ''app''"
      "map_of (namespace (example_world (example_package 5 tag [9]))) ''app.spk''
         = Some (RegularFile (octal [6, 4, 4]) (example_package 5 tag [9]))"
      "length (MAGIC_NUMBER example_externals) \<le> length (example_package 5 tag [9])"
      "take (length (MAGIC_NUMBER example_externals)) (example_package 5 tag [9])
         = MAGIC_NUMBER example_externals"
      "xz_decompress example_externals
         (drop (length (MAGIC_NUMBER example_externals)) (example_package 5 tag [9]))
         = (replicate 32 7 @ [5, tag] @ [9], 0)"
      "readSignature example_externals (replicate 32 7 @ [5, tag] @ [9])
         = Some ((replicate 32 7, [5, tag]), [9])"
      "length (replicate 32 (7 :: byte)) = 32"
      "length [5, tag] = crypto_hash_BYTES example_externals + crypto_sign_BYTES example_externals"
      by (simp_all add: example_world_def example_externals_def example_package_def sys_access_def)
    note signature_checks_in_order [OF reach, where h = h and onlyPrintId = False]
  }
  note run = this
  have opens:
    "crypto_sign_open example_externals [5, 0] (replicate 32 7) = None"
    "crypto_sign_open example_externals [5, 1] (replicate 32 7) = Some []"
    "crypto_sign_open example_externals [5, 2] (replicate 32 7) = Some [5]"
    "length ([] :: byte list) \<noteq> crypto_hash_BYTES example_externals"
    "length [5 :: byte] = crypto_hash_BYTES example_externals"
    "[5] \<noteq> take (crypto_hash_BYTES example_externals) (crypto_hash example_externals [9])"
    "children (example_world spk) = []" for spk
    by (simp_all add: example_externals_def example_world_def)
  from run [of 0 "[]"] run [of 1 "[]"] run [of 2 "[5]"]
  show ?thesis
    using opens by simp
qed

end
